theory Spec2Isabelle
  imports Complex_Main "HOL-Library.Code_Target_Nat"
begin

section \<open>JavaScript strings\<close>

text \<open>
  A JavaScript string is a sequence of UTF-16 code units, numbers below 65536. The program does
  no arithmetic on them: it compares them and moves them. \<open>js\<close> writes the string whose code
  units are the characters of a literal.
\<close>

type_synonym codeUnit = nat

type_synonym jsstring = "codeUnit list"

definition cu :: "char \<Rightarrow> codeUnit" where
  "cu c = of_char c"

definition js :: "string \<Rightarrow> jsstring" where
  "js s = map cu s"

text \<open>\<open>String.prototype.trim\<close> removes white space and line terminators at both ends: TAB, LF,
  VT, FF, CR, SPACE, NBSP, U+1680, U+2000 to U+200A, U+2028, U+2029, U+202F, U+205F, U+3000
  and U+FEFF.\<close>

definition isWhiteSpace :: "codeUnit \<Rightarrow> bool" where
  "isWhiteSpace c =
     (c \<in> {0x09, 0x0A, 0x0B, 0x0C, 0x0D, 0x20, 0xA0, 0x1680, 0x2028, 0x2029, 0x202F, 0x205F,
            0x3000, 0xFEFF}
      \<or> (0x2000 \<le> c \<and> c \<le> 0x200A))"

definition trim :: "jsstring \<Rightarrow> jsstring" where
  "trim s = rev (dropWhile isWhiteSpace (rev (dropWhile isWhiteSpace s)))"

definition startsWith :: "jsstring \<Rightarrow> jsstring \<Rightarrow> bool" where
  "startsWith s p = (take (length p) s = p)"

text \<open>\<open>s.indexOf(p)\<close>: the first index at which \<open>p\<close> occurs in \<open>s\<close>, and -1 when there is none.\<close>

fun indexOf :: "jsstring \<Rightarrow> jsstring \<Rightarrow> int" where
  "indexOf [] p = (if p = [] then 0 else - 1)"
| "indexOf (c # cs) p =
     (if startsWith (c # cs) p then 0
      else (let i = indexOf cs p in if i < 0 then - 1 else i + 1))"


text \<open>\<open>s.substring(a, b)\<close> and \<open>s.substring(a)\<close>: both indices are clamped to the string, and
  the two-argument form swaps them when they come in the wrong order.\<close>

definition clampIndex :: "jsstring \<Rightarrow> int \<Rightarrow> nat" where
  "clampIndex s i = min (nat i) (length s)"

definition substring :: "jsstring \<Rightarrow> int \<Rightarrow> int \<Rightarrow> jsstring" where
  "substring s a b =
     (let lo = min (clampIndex s a) (clampIndex s b);
          hi = max (clampIndex s a) (clampIndex s b)
      in take (hi - lo) (drop lo s))"

definition substringFrom :: "jsstring \<Rightarrow> int \<Rightarrow> jsstring" where
  "substringFrom s a = drop (clampIndex s a) s"

section \<open>\<open>TextDecoder\<close>: bytes to text\<close>

text \<open>
  What the stream delivers is bytes; an Isabelle \<^typ>\<open>char\<close> is a byte. \<open>decode\<close> is
  \<open>new TextDecoder('utf-8').decode(value)\<close> called without \<open>{stream: true}\<close>: every call
  starts a new UTF-8 decoder, reads the bytes of \<open>value\<close> to their end and flushes.

  \<open>leadByte\<close> is the decoder on a byte when it expects the start of a character: an ASCII
  byte is a character, the bytes C2 to F4 start a sequence of two to four bytes (with the
  code point bits they carry, the number of bytes still needed and the range allowed for the
  next byte), every other byte is malformed.
\<close>

type_synonym bytes = "char list"

datatype lead = Emit nat | Malformed | Need nat nat nat nat

definition leadByte :: "nat \<Rightarrow> lead" where
  "leadByte b =
     (if b \<le> 0x7F then Emit b
      else if 0xC2 \<le> b \<and> b \<le> 0xDF then Need (b - 0xC0) 1 0x80 0xBF
      else if 0xE0 \<le> b \<and> b \<le> 0xEF then
        Need (b - 0xE0) 2 (if b = 0xE0 then 0xA0 else 0x80) (if b = 0xED then 0x9F else 0xBF)
      else if 0xF0 \<le> b \<and> b \<le> 0xF4 then
        Need (b - 0xF0) 3 (if b = 0xF0 then 0x90 else 0x80) (if b = 0xF4 then 0x8F else 0xBF)
      else Malformed)"

text \<open>
  The scalar values of a byte sequence. The state is \<open>None\<close> at the start of a character and
  otherwise holds the code point so far, the number of bytes needed and the range for the
  next byte. A byte outside that range ends the sequence with U+FFFD and is read again as the
  start of a character; so does the end of the bytes inside a sequence.
\<close>

fun scalarValues :: "(nat \<times> nat \<times> nat \<times> nat) option \<Rightarrow> nat list \<Rightarrow> nat list" where
  "scalarValues None [] = []"
| "scalarValues (Some pending) [] = [0xFFFD]"
| "scalarValues None (b # bs) =
     (case leadByte b of
        Emit c \<Rightarrow> c # scalarValues None bs
      | Malformed \<Rightarrow> 0xFFFD # scalarValues None bs
      | Need c n lo hi \<Rightarrow> scalarValues (Some (c, n, lo, hi)) bs)"
| "scalarValues (Some (c, n, lo, hi)) (b # bs) =
     (if lo \<le> b \<and> b \<le> hi then
        (if n = 1 then (c * 64 + (b - 0x80)) # scalarValues None bs
         else scalarValues (Some (c * 64 + (b - 0x80), n - 1, 0x80, 0xBF)) bs)
      else
        0xFFFD #
        (case leadByte b of
           Emit c' \<Rightarrow> c' # scalarValues None bs
         | Malformed \<Rightarrow> 0xFFFD # scalarValues None bs
         | Need c' n' lo' hi' \<Rightarrow> scalarValues (Some (c', n', lo', hi')) bs))"

text \<open>A scalar value as UTF-16: one code unit, or a surrogate pair from U+10000 on.\<close>

definition codeUnits :: "nat \<Rightarrow> jsstring" where
  "codeUnits c =
     (if c < 0x10000 then [c]
      else [0xD800 + (c - 0x10000) div 0x400, 0xDC00 + (c - 0x10000) mod 0x400])"

text \<open>The decoder does not ignore the byte order mark: a first scalar value U+FEFF is dropped.\<close>

definition decode :: "bytes \<Rightarrow> jsstring" where
  "decode value =
     (let scalars = scalarValues None (map of_char value)
      in concat (map codeUnits
           (case scalars of [] \<Rightarrow> [] | c # cs \<Rightarrow> if c = 0xFEFF then cs else scalars)))"

section \<open>Composer: the history of sent messages\<close>

text \<open>
  The history lives in \<open>localStorage\<close> under one key, as the JSON text of an array of strings.
  The model keeps the array itself: \<open>JSON.parse (JSON.stringify xs)\<close> is \<open>xs\<close> for an array of
  strings. \<open>NoLocalStorage\<close> is the environment in which \<open>typeof localStorage\<close> is
  \<open>'undefined'\<close>, and \<open>LocalStorage None\<close> a store without the key.
\<close>

datatype storage = NoLocalStorage | LocalStorage "jsstring list option"

fun loadMessagesFromHistory :: "storage \<Rightarrow> jsstring list" where
  "loadMessagesFromHistory NoLocalStorage = []"
| "loadMessagesFromHistory (LocalStorage None) = []"
| "loadMessagesFromHistory (LocalStorage (Some xs)) = xs"

text \<open>\<open>appendMessageToHistory (composeText, maxMessages = 20)\<close>.\<close>

definition appendMessageToHistory :: "jsstring \<Rightarrow> nat \<Rightarrow> storage \<Rightarrow> storage" where
  "appendMessageToHistory composeText maxMessages st =
     (case st of
        NoLocalStorage \<Rightarrow> NoLocalStorage
      | LocalStorage _ \<Rightarrow>
          (let optimizedText = trim composeText;
               composedMessages = filter (\<lambda>m. trim m \<noteq> optimizedText) (loadMessagesFromHistory st)
           in LocalStorage (Some (take maxMessages (composeText # composedMessages)))))"

fun clearMessageHistory :: "storage \<Rightarrow> storage" where
  "clearMessageHistory NoLocalStorage = NoLocalStorage"
| "clearMessageHistory (LocalStorage _) = LocalStorage None"

text \<open>The history list of the data model: no two entries equal after trimming, at most 20
  entries.\<close>

definition historyList :: "jsstring list \<Rightarrow> bool" where
  "historyList h = (distinct (map trim h) \<and> length h \<le> 20)"

text \<open>The store after the texts \<open>ts\<close> have been sent one after the other.\<close>

definition sendAll :: "storage \<Rightarrow> jsstring list \<Rightarrow> storage" where
  "sendAll st ts = foldl (\<lambda>s t. appendMessageToHistory t 20 s) st ts"

text \<open>Twenty one-letter texts, \<open>a\<close> the most recent and \<open>t\<close> the oldest: a full history.\<close>

definition twentyTexts :: "jsstring list" where
  "twentyTexts = map (\<lambda>c. [cu c]) ''abcdefghijklmnopqrst''"

section \<open>JavaScript values and \<open>JSON.parse\<close>\<close>

text \<open>The values \<open>JSON.parse\<close> returns and a property can hold. A Number is NaN, an infinity
  (\<open>True\<close> for the negative one) or finite; both zeros are \<open>Finite 0\<close>.\<close>

datatype jsnum = NaN | Infinity bool | Finite rat

datatype jsval =
    JUndefined
  | JNull
  | JBool bool
  | JNumber jsnum
  | JString jsstring
  | JArray "jsval list"
  | JObject "(jsstring \<times> jsval) list"

text \<open>\<open>!v\<close> is \<open>\<not> truthy v\<close>.\<close>

fun truthy :: "jsval \<Rightarrow> bool" where
  "truthy JUndefined = False"
| "truthy JNull = False"
| "truthy (JBool b) = b"
| "truthy (JNumber n) = (n \<noteq> NaN \<and> n \<noteq> Finite 0)"
| "truthy (JString s) = (s \<noteq> [])"
| "truthy (JArray _) = True"
| "truthy (JObject _) = True"

text \<open>\<open>parsed.model\<close>: reading a property of \<open>null\<close> or \<open>undefined\<close> throws a TypeError
  (\<open>None\<close>); an object gives the member of that name, the last one when the JSON text repeated
  the key, and \<open>undefined\<close> when it has none; so does every other value, none of which has
  a property \<open>model\<close>.\<close>

fun modelOf :: "jsval \<Rightarrow> jsval option" where
  "modelOf JUndefined = None"
| "modelOf JNull = None"
| "modelOf (JObject members) =
     Some (case map_of (rev members) (js ''model'') of None \<Rightarrow> JUndefined | Some v \<Rightarrow> v)"
| "modelOf _ = Some JUndefined"

text \<open>
  \<open>JSON.parse\<close> belongs to the runtime. The functions of the program take it as a parameter
  \<open>parse\<close>, where \<open>parse s = None\<close> stands for a SyntaxError. \<open>JSON_parse\<close> below is the runtime's
  function on the JSON texts of one shape: an object whose member values are strings without
  escape sequences or one of \<open>true\<close>, \<open>false\<close>, \<open>null\<close>, with JSON white space between the tokens;
  this includes the first packet \<open>{"model":"..."}\<close> of the relay. It answers \<open>None\<close> on every
  other text, as the runtime does unless the text is JSON of another shape (numbers, arrays,
  nested objects, escape sequences); the runs evaluated below pass it no such text.
\<close>

definition isJsonSpace :: "codeUnit \<Rightarrow> bool" where
  "isJsonSpace c = (c = 0x20 \<or> c = 0x09 \<or> c = 0x0A \<or> c = 0x0D)"

definition skipSpace :: "jsstring \<Rightarrow> jsstring" where
  "skipSpace s = dropWhile isJsonSpace s"

text \<open>The characters of a string literal after its opening quote, and what follows its closing
  quote. A control character or a backslash ends the scan without a result.\<close>

fun scanString :: "jsstring \<Rightarrow> (jsstring \<times> jsstring) option" where
  "scanString [] = None"
| "scanString (c # cs) =
     (if c = 0x22 then Some ([], cs)
      else if c = 0x5C \<or> c < 0x20 then None
      else (case scanString cs of None \<Rightarrow> None | Some (s, r) \<Rightarrow> Some (c # s, r)))"

definition scanValue :: "jsstring \<Rightarrow> (jsval \<times> jsstring) option" where
  "scanValue s =
     (if startsWith s [0x22] then
        (case scanString (tl s) of None \<Rightarrow> None | Some (v, r) \<Rightarrow> Some (JString v, r))
      else if startsWith s (js ''true'') then Some (JBool True, drop 4 s)
      else if startsWith s (js ''false'') then Some (JBool False, drop 5 s)
      else if startsWith s (js ''null'') then Some (JNull, drop 4 s)
      else None)"

text \<open>The members of an object from the first key on, up to and including the closing brace.
  Every member takes at least one character, so the length of the text bounds their number.\<close>

fun scanMembers :: "nat \<Rightarrow> jsstring \<Rightarrow> ((jsstring \<times> jsval) list \<times> jsstring) option" where
  "scanMembers 0 s = None"
| "scanMembers (Suc n) s =
     (if startsWith s [0x22] then
        (case scanString (tl s) of
           None \<Rightarrow> None
         | Some (k, r1) \<Rightarrow>
             (if startsWith (skipSpace r1) (js '':'') then
                (case scanValue (skipSpace (tl (skipSpace r1))) of
                   None \<Rightarrow> None
                 | Some (v, r2) \<Rightarrow>
                     (if startsWith (skipSpace r2) (js '','') then
                        (case scanMembers n (skipSpace (tl (skipSpace r2))) of
                           None \<Rightarrow> None
                         | Some (members, r3) \<Rightarrow> Some ((k, v) # members, r3))
                      else if startsWith (skipSpace r2) (js ''}'') then Some ([(k, v)], tl (skipSpace r2))
                      else None))
              else None))
      else None)"

definition JSON_parse :: "jsstring \<Rightarrow> jsval option" where
  "JSON_parse s =
     (if startsWith (skipSpace s) (js ''{'') then
        (let r = skipSpace (tl (skipSpace s)) in
         if startsWith r (js ''}'') then
           (if skipSpace (tl r) = [] then Some (JObject []) else None)
         else
           (case scanMembers (length r) r of
              None \<Rightarrow> None
            | Some (members, r') \<Rightarrow> if skipSpace r' = [] then Some (JObject members) else None))
      else None)"

section \<open>Messages\<close>

datatype role = System | User | Assistant

datatype avatar = SmartToyTwoToneIcon | Face6Icon | SmartToyOutlinedIcon

text \<open>\<open>UiMessage\<close>. The interface declares \<open>model\<close> a jsstring; the decoder stores whatever
  \<open>parsed.model\<close> is, so the field holds a JavaScript value.\<close>

record UiMessage =
  uid :: jsstring
  sender :: jsstring
  role :: role
  "text" :: jsstring
  model :: jsval
  avatar :: avatar

fun MessageDefaults :: "role \<Rightarrow> role \<times> jsstring \<times> avatar" where
  "MessageDefaults System = (System, js ''Bot'', SmartToyTwoToneIcon)"
| "MessageDefaults User = (User, js ''You'', Face6Icon)"
| "MessageDefaults Assistant = (Assistant, js ''Bot'', SmartToyOutlinedIcon)"

text \<open>\<open>createUiMessage (role, text)\<close>. The first argument is the identifier that
  \<open>Math.random().toString(36).substring(2, 15)\<close> yields at this call.\<close>

definition createUiMessage :: "jsstring \<Rightarrow> role \<Rightarrow> jsstring \<Rightarrow> UiMessage" where
  "createUiMessage random r t =
     (case MessageDefaults r of (r', s, a) \<Rightarrow>
        \<lparr>uid = random, sender = s, role = r', text = t, model = JString [], avatar = a\<rparr>)"

section \<open>The stream decoder\<close>

text \<open>
  The body of the loop of \<open>getBotMessageStreaming\<close> on the local \<open>newBotMessage\<close>, in two parts:
  \<open>processChunk\<close> is the part from \<open>newBotMessage.text += messageText\<close> to the end of the
  metadata block, and \<open>readChunk\<close> puts \<open>const messageText = decoder.decode(value)\<close> before
  it, for the bytes \<open>value\<close> of one read. \<open>parseCalls\<close> records the texts handed to
  \<open>JSON.parse\<close>, in order.
\<close>

record decoding =
  newBotMessage :: UiMessage
  parseCalls :: "jsstring list"

definition processChunk :: "(jsstring \<Rightarrow> jsval option) \<Rightarrow> decoding \<Rightarrow> jsstring \<Rightarrow> decoding" where
  "processChunk parse d messageText =
     (let m = (newBotMessage d)\<lparr>text := text (newBotMessage d) @ messageText\<rparr> in
      if \<not> truthy (model m) \<and> startsWith (text m) (js ''{'') then
        (let endOfJson = indexOf (text m) (js ''}'') in
         if endOfJson > 0 then
           (let json = substring (text m) 0 (endOfJson + 1);
                calls = parseCalls d @ [json]
            in case parse json of
                 None \<Rightarrow> \<lparr>newBotMessage = m, parseCalls = calls\<rparr>
               | Some parsed \<Rightarrow>
                   (case modelOf parsed of
                      None \<Rightarrow> \<lparr>newBotMessage = m, parseCalls = calls\<rparr>
                    | Some v \<Rightarrow>
                        \<lparr>newBotMessage = m\<lparr>model := v, text := substringFrom (text m) (endOfJson + 1)\<rparr>,
                         parseCalls = calls\<rparr>))
         else \<lparr>newBotMessage = m, parseCalls = parseCalls d\<rparr>)
      else \<lparr>newBotMessage = m, parseCalls = parseCalls d\<rparr>)"

definition readChunk :: "(jsstring \<Rightarrow> jsval option) \<Rightarrow> decoding \<Rightarrow> bytes \<Rightarrow> decoding" where
  "readChunk parse d value = (let messageText = decode value in processChunk parse d messageText)"

text \<open>The loop over the chunks read until \<open>done\<close>, on a fresh assistant message.\<close>

definition decodeStream :: "(jsstring \<Rightarrow> jsval option) \<Rightarrow> jsstring \<Rightarrow> bytes list \<Rightarrow> decoding" where
  "decodeStream parse random chunks =
     foldl (readChunk parse) \<lparr>newBotMessage = createUiMessage random Assistant [], parseCalls = []\<rparr> chunks"

section \<open>The message renderer: text and code blocks\<close>

datatype MessageBlock =
    TextBlock (content: jsstring)
  | CodeBlock (content: jsstring) (code: jsstring) (language: jsstring)

text \<open>\<open>\w\<close> without the unicode flag: ASCII letters, digits and the underscore.\<close>

definition isWord :: "codeUnit \<Rightarrow> bool" where
  "isWord c =
     ((0x30 \<le> c \<and> c \<le> 0x39) \<or> (0x41 \<le> c \<and> c \<le> 0x5A) \<or> c = 0x5F \<or> (0x61 \<le> c \<and> c \<le> 0x7A))"

definition isBacktick :: "codeUnit \<Rightarrow> bool" where
  "isBacktick c = (c = 0x60)"

text \<open>
  The regular expression \<open>/`{3,}(\w+)?\n([\s\S]*?)(`{3,}|$)/g\<close>, matched at the start of a text.

  \<open>lazyBody\<close> is the part \<open>([\s\S]*?)(`{3,}|$)\<close>: the lazy star takes no character more than it
  must, so the match ends at the first position where three or more backticks begin, all of
  which the greedy \<open>`{3,}\<close> takes, or else at the end of the text. It returns groups 2 and 3.

  \<open>matchHere\<close> is the whole expression. The opening \<open>`{3,}\<close> is greedy and must take the whole
  run of backticks, since what follows it has to be a word character or the newline; \<open>(\w+)?\<close>
  likewise takes the whole run of word characters, since the newline has to follow. It returns
  group 1 (\<open>None\<close> when it took no part), group 2 and the length of the match.
\<close>

fun lazyBody :: "jsstring \<Rightarrow> jsstring \<times> jsstring" where
  "lazyBody [] = ([], [])"
| "lazyBody (c # cs) =
     (if 3 \<le> length (takeWhile isBacktick (c # cs)) then ([], takeWhile isBacktick (c # cs))
      else (case lazyBody cs of (body, closing) \<Rightarrow> (c # body, closing)))"

definition matchHere :: "jsstring \<Rightarrow> (jsstring option \<times> jsstring \<times> nat) option" where
  "matchHere s =
     (let ticks = takeWhile isBacktick s;
          word = takeWhile isWord (dropWhile isBacktick s);
          rest = dropWhile isWord (dropWhile isBacktick s)
      in if 3 \<le> length ticks \<and> startsWith rest [0x0A] then
           (case lazyBody (tl rest) of (body, closing) \<Rightarrow>
              Some (if word = [] then None else Some word, body,
                    length ticks + length word + 1 + length body + length closing))
         else None)"

text \<open>\<open>codeBlockRegex.exec(text)\<close> from \<open>lastIndex\<close> on, given the text from there on: the
  leftmost match, with the text skipped before it.\<close>

fun exec :: "jsstring \<Rightarrow> (jsstring \<times> jsstring option \<times> jsstring \<times> nat) option" where
  "exec [] = None"
| "exec (c # cs) =
     (case matchHere (c # cs) of
        Some (g1, g2, n) \<Rightarrow> Some ([], g1, g2, n)
      | None \<Rightarrow> (case exec cs of None \<Rightarrow> None | Some (skipped, m) \<Rightarrow> Some (c # skipped, m)))"

lemma lazyBody_length: "lazyBody s = (body, closing) \<Longrightarrow> length body + length closing \<le> length s"
proof (induction s arbitrary: body closing)
  case Nil
  then show ?case by simp
next
  case (Cons c cs)
  show ?case
  proof (cases "3 \<le> length (takeWhile isBacktick (c # cs))")
    case True
    with Cons.prems have "body = []" "closing = takeWhile isBacktick (c # cs)"
      by auto
    then show ?thesis
      using length_takeWhile_le [of isBacktick "c # cs"] by simp
  next
    case False
    with Cons.prems obtain b where "lazyBody cs = (b, closing)" "body = c # b"
      by (auto split: prod.splits)
    with Cons.IH show ?thesis by fastforce
  qed
qed

lemma matchHere_length:
  assumes "matchHere s = Some (g1, g2, n)"
  shows "0 < n \<and> n \<le> length s"
proof -
  let ?ticks = "takeWhile isBacktick s"
  let ?r1 = "dropWhile isBacktick s"
  let ?word = "takeWhile isWord ?r1"
  let ?rest = "dropWhile isWord ?r1"
  obtain body closing where lb: "lazyBody (tl ?rest) = (body, closing)"
    by (cases "lazyBody (tl ?rest)")
  from assms have c: "3 \<le> length ?ticks" "startsWith ?rest [0x0A]"
    by (auto simp: matchHere_def Let_def split: if_splits)
  with assms lb have n: "n = length ?ticks + length ?word + 1 + length body + length closing"
    by (auto simp: matchHere_def Let_def)
  from c(2) have "?rest \<noteq> []"
    by (cases ?rest) (simp_all add: startsWith_def)
  then have "length ?rest = Suc (length (tl ?rest))"
    by simp
  moreover have "length s = length ?ticks + length ?word + length ?rest"
    by (metis add.assoc length_append takeWhile_dropWhile_id)
  moreover from lazyBody_length [OF lb] have "length body + length closing \<le> length (tl ?rest)" .
  ultimately show ?thesis
    using n by simp
qed

lemma exec_length:
  "exec s = Some (skipped, g1, g2, n) \<Longrightarrow> 0 < n \<and> length skipped + n \<le> length s"
proof (induction s arbitrary: skipped)
  case Nil
  then show ?case by simp
next
  case (Cons c cs)
  show ?case
  proof (cases "matchHere (c # cs)")
    case None
    with Cons.prems obtain sk where "exec cs = Some (sk, g1, g2, n)" "skipped = c # sk"
      by (auto split: option.splits)
    with Cons.IH show ?thesis by fastforce
  next
    case (Some m)
    with Cons.prems have "matchHere (c # cs) = Some (g1, g2, n)" "skipped = []"
      by (auto split: prod.splits)
    with matchHere_length show ?thesis by fastforce
  qed
qed

text \<open>
  \<open>parseAndHighlightCodeBlocks\<close>, on the text from \<open>lastIndex\<close> on. \<open>highlight code language\<close> is
  \<open>Prism.highlight (code, Prism.languages[language] || Prism.languages.typescript, language)\<close>,
  a function of the library.
\<close>

function parseAndHighlightCodeBlocks :: "(jsstring \<Rightarrow> jsstring \<Rightarrow> jsstring) \<Rightarrow> jsstring \<Rightarrow> MessageBlock list" where
  "parseAndHighlightCodeBlocks highlight t =
     (case exec t of
        None \<Rightarrow> (if 0 < length t then [TextBlock t] else [])
      | Some (skipped, g1, g2, n) \<Rightarrow>
          (let language = (case g1 of None \<Rightarrow> js ''typescript'' | Some l \<Rightarrow> l);
               codeBlock = trim g2;
               highlightedCode = highlight codeBlock language
           in TextBlock skipped # CodeBlock highlightedCode codeBlock language
                # parseAndHighlightCodeBlocks highlight (drop (length skipped + n) t)))"
  by pat_completeness auto
termination
proof (relation "measure (\<lambda>(h, t). length t)")
  show "wf (measure (\<lambda>(h, t). length t))"
    by simp
next
  fix highlight :: "jsstring \<Rightarrow> jsstring \<Rightarrow> jsstring" and t x2 skipped y g1 ya g2 n
  assume "exec t = Some x2" "(skipped, y) = x2" "(g1, ya) = y" "(g2, n) = ya"
  then have "exec t = Some (skipped, g1, g2, n)"
    by simp
  from exec_length [OF this] have "length t - (length skipped + n) < length t"
    by arith
  then show "((highlight, drop (length skipped + n) t), (highlight, t)) \<in> measure (\<lambda>(h, t). length t)"
    by simp
qed

section \<open>The relay: an upstream failure\<close>

text \<open>
  The response of the upstream API as \<open>OpenAIStream\<close> sees it: \<open>json\<close> is \<open>JSON.stringify\<close> of
  the value \<open>res.json()\<close> resolves with, and \<open>None\<close> when \<open>res.json()\<close> rejects.
\<close>

record upstream =
  ok :: bool
  status :: nat
  statusText :: jsstring
  json :: "jsstring option"





section \<open>The conversation page\<close>

text \<open>
  Messages are objects: the conversation holds references to them, and the stream decoder
  changes the text of a message that the conversation already refers to. \<open>store\<close> holds the
  objects, a reference being an index into it; \<open>messages\<close> is the state of that name, a list of
  references. A request made by \<open>getBotMessageStreaming\<close> is waiting for \<open>fetch\<close>, or reading
  the body into the message \<open>newBotMessage\<close> (with the texts it has passed to \<open>JSON.parse\<close>), or
  its promise is resolved or rejected.
\<close>

datatype phase = Fetching | Reading nat "jsstring list" | Resolved | Rejected

record app =
  store :: "UiMessage list"
  messages :: "nat list"
  disableCompose :: bool
  composeText :: jsstring
  localStorage :: storage
  requests :: "phase list"

definition initial :: "storage \<Rightarrow> app" where
  "initial st =
     \<lparr>store = [], messages = [], disableCompose = False, composeText = [],
      localStorage = st, requests = []\<rparr>"

text \<open>The conversation as it is displayed: the objects the list refers to.\<close>

definition conversation :: "app \<Rightarrow> UiMessage list" where
  "conversation s = map (\<lambda>r. store s ! r) (messages s)"

fun inFlight :: "phase \<Rightarrow> bool" where
  "inFlight Fetching = True"
| "inFlight (Reading _ _) = True"
| "inFlight Resolved = False"
| "inFlight Rejected = False"

text \<open>\<open>handleComposerSendMessage\<close>: the user message joins the conversation, composing is
  disabled and the request starts. What the request posts has no part in what the page does
  with the response.\<close>

definition handleComposerSendMessage :: "jsstring \<Rightarrow> jsstring \<Rightarrow> app \<Rightarrow> app" where
  "handleComposerSendMessage random t s =
     s\<lparr>store := store s @ [createUiMessage random User t],
       messages := messages s @ [length (store s)],
       disableCompose := True,
       requests := requests s @ [Fetching]\<rparr>"

text \<open>\<open>handleSendClicked\<close> of the composer.\<close>

definition handleSendClicked :: "jsstring \<Rightarrow> app \<Rightarrow> app" where
  "handleSendClicked random s =
     (let t = trim (composeText s) in
      if 0 < length t then
        (let s1 = s\<lparr>composeText := []\<rparr>;
             s2 = handleComposerSendMessage random t s1
         in s2\<lparr>localStorage := appendMessageToHistory t 20 (localStorage s2)\<rparr>)
      else s)"

text \<open>\<open>handleKeyPress\<close>: \<open>preventDefault\<close> keeps the key from changing the compose box.\<close>

definition handleKeyPress :: "jsstring \<Rightarrow> bool \<Rightarrow> jsstring \<Rightarrow> app \<Rightarrow> app" where
  "handleKeyPress key shiftKey random s =
     (if key = js ''Enter'' \<and> \<not> shiftKey then
        (if \<not> disableCompose s then handleSendClicked random s else s)
      else s)"

text \<open>The updater given to \<open>setMessages\<close> at the end of each turn of the loop.\<close>

definition setMessagesUpdater :: "UiMessage list \<Rightarrow> nat \<Rightarrow> nat list \<Rightarrow> nat list" where
  "setMessagesUpdater objects newBot list =
     (case find (\<lambda>message. uid (objects ! message) = uid (objects ! newBot)) list of
        None \<Rightarrow> list @ [newBot]
      | Some message \<Rightarrow> list)"

text \<open>
  \<open>getBotMessageStreaming\<close>, one function for each point at which it resumes.
  \<open>onResponse\<close>: \<open>fetch\<close> has resolved; with a body the assistant message is created, without one
  the function returns. \<open>onRead\<close>: \<open>reader.read()\<close> has given the bytes of a chunk. \<open>onDone\<close>: it has given
  \<open>done\<close>, the promise resolves and \<open>then\<close> enables composing. \<open>onFail\<close>: \<open>fetch\<close> or
  \<open>reader.read()\<close> has rejected; the promise rejects, and nothing handles that.
\<close>

definition onResponse :: "nat \<Rightarrow> bool \<Rightarrow> jsstring \<Rightarrow> app \<Rightarrow> app" where
  "onResponse i body random s =
     (if i < length (requests s) \<and> requests s ! i = Fetching then
        (if body then
           s\<lparr>store := store s @ [createUiMessage random Assistant []],
             requests := (requests s)[i := Reading (length (store s)) []]\<rparr>
         else s\<lparr>requests := (requests s)[i := Resolved], disableCompose := False\<rparr>)
      else s)"

definition onRead :: "(jsstring \<Rightarrow> jsval option) \<Rightarrow> nat \<Rightarrow> bytes \<Rightarrow> app \<Rightarrow> app" where
  "onRead parse i value s =
     (if i < length (requests s) then
        (case requests s ! i of
           Reading newBot calls \<Rightarrow>
             (let d = readChunk parse \<lparr>newBotMessage = store s ! newBot, parseCalls = calls\<rparr> value;
                  objects = (store s)[newBot := newBotMessage d]
              in s\<lparr>store := objects,
                   messages := setMessagesUpdater objects newBot (messages s),
                   requests := (requests s)[i := Reading newBot (parseCalls d)]\<rparr>)
         | _ \<Rightarrow> s)
      else s)"

definition onDone :: "nat \<Rightarrow> app \<Rightarrow> app" where
  "onDone i s =
     (if i < length (requests s) then
        (case requests s ! i of
           Reading newBot calls \<Rightarrow> s\<lparr>requests := (requests s)[i := Resolved], disableCompose := False\<rparr>
         | _ \<Rightarrow> s)
      else s)"

definition onFail :: "nat \<Rightarrow> app \<Rightarrow> app" where
  "onFail i s =
     (if i < length (requests s) \<and> inFlight (requests s ! i) then
        s\<lparr>requests := (requests s)[i := Rejected]\<rparr>
      else s)"

text \<open>
  What can happen to the page. \<open>Change\<close> sets the compose box (typing, a text taken from the
  history, a dictated text). \<open>Click\<close> is a click on the send button, which is disabled while
  \<open>disableCompose\<close> holds and then passes no click on. \<open>Click\<close> and \<open>KeyDown\<close> carry the
  identifier a new message would get, and \<open>Response\<close> the one of the assistant message.
  The page is rendered between two events, so that each handler sees the current state.
\<close>

datatype event =
    Change jsstring
  | Click jsstring
  | KeyDown jsstring bool jsstring
  | ListClear
  | ClearHistory
  | Response nat bool jsstring
  | Read nat bytes
  | Done nat
  | Fail nat

fun step :: "(jsstring \<Rightarrow> jsval option) \<Rightarrow> app \<Rightarrow> event \<Rightarrow> app" where
  "step parse s (Change t) = s\<lparr>composeText := t\<rparr>"
| "step parse s (Click random) = (if disableCompose s then s else handleSendClicked random s)"
| "step parse s (KeyDown key shiftKey random) = handleKeyPress key shiftKey random s"
| "step parse s ListClear = s\<lparr>messages := []\<rparr>"
| "step parse s ClearHistory = s\<lparr>localStorage := clearMessageHistory (localStorage s)\<rparr>"
| "step parse s (Response i body random) = onResponse i body random s"
| "step parse s (Read i value) = onRead parse i value s"
| "step parse s (Done i) = onDone i s"
| "step parse s (Fail i) = onFail i s"

definition run :: "(jsstring \<Rightarrow> jsval option) \<Rightarrow> app \<Rightarrow> event list \<Rightarrow> app" where
  "run parse s events = foldl (step parse) s events"

section \<open>Notions for the properties of the decoder\<close>

text \<open>The text the reads give the page: each read decoded on its own, one text after the
  other. The text of the stream is \<open>decode (concat chunks)\<close>, its bytes decoded as a whole.\<close>

definition readsText :: "bytes list \<Rightarrow> jsstring" where
  "readsText chunks = concat (map decode chunks)"

text \<open>Every character but the closing brace.\<close>

definition notClose :: "codeUnit \<Rightarrow> bool" where
  "notClose c = (c \<noteq> 0x7D)"

text \<open>A text that begins with an opening brace and has a closing brace: the condition under
  which the loop reaches \<open>JSON.parse\<close> while the model is not set.\<close>

definition framed :: "jsstring \<Rightarrow> bool" where
  "framed s = (startsWith s (js ''{'') \<and> 0x7D \<in> set s)"

text \<open>The text up to and including its first closing brace, and the text after it.\<close>

definition jsonPrefix :: "jsstring \<Rightarrow> jsstring" where
  "jsonPrefix s = takeWhile notClose s @ js ''}''"

definition afterPrefix :: "jsstring \<Rightarrow> jsstring" where
  "afterPrefix s = tl (dropWhile notClose s)"

text \<open>The outcome of the \<open>try\<close> block on a text: the value it assigns to the model, and \<open>None\<close>
  when \<open>JSON.parse\<close> or the read of \<open>parsed.model\<close> throws.\<close>

definition tryParse :: "(jsstring \<Rightarrow> jsval option) \<Rightarrow> jsstring \<Rightarrow> jsval option" where
  "tryParse parse j = (case parse j of None \<Rightarrow> None | Some parsed \<Rightarrow> modelOf parsed)"

text \<open>A text begins with a JSON object when it begins with an opening brace and \<open>JSON.parse\<close>
  accepts one of its prefixes.\<close>

definition beginsWithObject :: "(jsstring \<Rightarrow> jsval option) \<Rightarrow> jsstring \<Rightarrow> bool" where
  "beginsWithObject parse s =
     (startsWith s (js ''{'') \<and> (\<exists>n \<in> set [0 ..< Suc (length s)]. parse (take n s) \<noteq> None))"

text \<open>The text up to the first closing brace parses, and its \<open>model\<close> is missing or falsy.\<close>

definition falsyPreamble :: "(jsstring \<Rightarrow> jsval option) \<Rightarrow> jsstring \<Rightarrow> bool" where
  "falsyPreamble parse s =
     (framed s \<and> (case tryParse parse (jsonPrefix s) of None \<Rightarrow> False | Some v \<Rightarrow> \<not> truthy v))"

text \<open>The assistant message as a function of the whole decoded text.\<close>

definition decoded :: "(jsstring \<Rightarrow> jsval option) \<Rightarrow> jsstring \<Rightarrow> jsstring \<Rightarrow> UiMessage" where
  "decoded parse random s =
     (if framed s then
        (case tryParse parse (jsonPrefix s) of
           None \<Rightarrow> (createUiMessage random Assistant [])\<lparr>text := s\<rparr>
         | Some v \<Rightarrow> (createUiMessage random Assistant [])\<lparr>text := afterPrefix s, model := v\<rparr>)
      else (createUiMessage random Assistant [])\<lparr>text := s\<rparr>)"

section \<open>Notions for the properties of the page\<close>

text \<open>The number of requests in flight, and the invariant of the page: at most one request is in
  flight, and none while composing is enabled.\<close>

definition inFlightCount :: "app \<Rightarrow> nat" where
  "inFlightCount s = length (filter inFlight (requests s))"

definition singleFlight :: "app \<Rightarrow> bool" where
  "singleFlight s = (inFlightCount s \<le> 1 \<and> (\<not> disableCompose s \<longrightarrow> inFlightCount s = 0))"

text \<open>The identifiers the events of a run carry, in order.\<close>

fun drawn :: "event \<Rightarrow> jsstring list" where
  "drawn (Click random) = [random]"
| "drawn (KeyDown key shiftKey random) = [random]"
| "drawn (Response i body random) = [random]"
| "drawn _ = []"

definition identifiers :: "event list \<Rightarrow> jsstring list" where
  "identifiers events = concat (map drawn events)"

text \<open>
  The invariant of the store and the list, given the identifiers drawn so far: the list holds
  no reference twice, every reference of the list and of a request that reads is to an object
  of the store, and the objects of the store have pairwise different identifiers, all of them
  drawn.
\<close>

fun pointsInto :: "nat \<Rightarrow> phase \<Rightarrow> bool" where
  "pointsInto n (Reading newBot calls) = (newBot < n)"
| "pointsInto n _ = True"

definition sound :: "jsstring list \<Rightarrow> app \<Rightarrow> bool" where
  "sound ids s =
     (distinct (messages s)
      \<and> (\<forall>r \<in> set (messages s). r < length (store s))
      \<and> distinct (map uid (store s))
      \<and> set (map uid (store s)) \<subseteq> set ids
      \<and> (\<forall>p \<in> set (requests s). pointsInto (length (store s)) p))"

section \<open>Properties of the history\<close>

lemma filter_trim_length:
  assumes "distinct (map trim h)" and "m \<in> set h" and "trim m = t"
  shows "Suc (length (filter (\<lambda>x. trim x \<noteq> t) h)) = length h"
  using assms
proof (induction h)
  case Nil
  then show ?case by simp
next
  case (Cons x xs)
  show ?case
  proof (cases "trim x = t")
    case True
    with Cons.prems have "t \<notin> trim ` set xs"
      by simp
    then have "\<forall>y \<in> set xs. trim y \<noteq> t"
      by (metis image_eqI)
    then have "filter (\<lambda>y. trim y \<noteq> t) xs = xs"
      by (simp add: filter_id_conv)
    with True show ?thesis by simp
  next
    case False
    with Cons show ?thesis by auto
  qed
qed

lemma distinct_trim_filter:
  "distinct (map trim h) \<Longrightarrow> distinct (map trim (filter P h))"
  by (induction h) auto

lemma historyList_append:
  assumes "historyList (loadMessagesFromHistory st)"
  shows "historyList (loadMessagesFromHistory (appendMessageToHistory t 20 st))"
proof (cases st)
  case NoLocalStorage
  then show ?thesis by (simp add: appendMessageToHistory_def historyList_def)
next
  case (LocalStorage item)
  let ?h = "loadMessagesFromHistory st"
  let ?f = "filter (\<lambda>m. trim m \<noteq> trim t) ?h"
  have d: "distinct (map trim (t # ?f))"
    using assms by (auto simp: historyList_def distinct_trim_filter)
  have "distinct (map trim (take 20 (t # ?f)))"
    using d by (metis distinct_take take_map)
  then show ?thesis
    using LocalStorage by (simp add: appendMessageToHistory_def historyList_def Let_def)
qed

lemma historyList_sendAll:
  "historyList (loadMessagesFromHistory st) \<Longrightarrow> historyList (loadMessagesFromHistory (sendAll st ts))"
  unfolding sendAll_def
  by (induction ts arbitrary: st) (simp_all add: historyList_append)

text \<open>
  Claim C8. Let \<open>h\<close> be a history list (entries pairwise different after trimming, at most 20
  of them; every list the component stores is one, see \<open>historyList_sendAll\<close>) held in
  \<open>localStorage\<close>, and \<open>T\<close> a sent text. If an entry of \<open>h\<close> equals \<open>T\<close> after trimming, the new list
  has the length of \<open>h\<close> and \<open>T\<close> at index 0, and no other entry equals \<open>T\<close> after trimming. If \<open>h\<close>
  has 20 entries and none equals \<open>T\<close> after trimming, the new list is \<open>T\<close> followed by the 19
  most recent entries of \<open>h\<close>: the oldest is dropped. In every case, also for a list that is not a
  history list, the stored list has at most 20 entries.
\<close>

theorem history_bubble_to_top_bounded:
  fixes h :: "jsstring list" and T :: jsstring
  defines "h' \<equiv> loadMessagesFromHistory (appendMessageToHistory T 20 (LocalStorage (Some h)))"
  shows "(historyList h \<and> trim T \<in> trim ` set h \<longrightarrow>
            length h' = length h \<and> h' ! 0 = T \<and> (\<forall>m \<in> set (tl h'). trim m \<noteq> trim T))
       \<and> (historyList h \<and> length h = 20 \<and> trim T \<notin> trim ` set h \<longrightarrow>
            h' = T # take 19 h \<and> last h \<notin> set h')
       \<and> length h' \<le> 20"
proof -
  let ?f = "filter (\<lambda>m. trim m \<noteq> trim T) h"
  have h': "h' = take 20 (T # ?f)"
    by (simp add: h'_def appendMessageToHistory_def)
  have bound: "length h' \<le> 20"
    by (simp add: h')
  have bubble: "length h' = length h \<and> h' ! 0 = T \<and> (\<forall>m \<in> set (tl h'). trim m \<noteq> trim T)"
    if wf: "historyList h" and ex: "trim T \<in> trim ` set h"
  proof -
    from ex obtain m where m: "m \<in> set h" "trim m = trim T" by auto
    from wf have "distinct (map trim h)" by (simp add: historyList_def)
    from filter_trim_length [OF this m] have len: "Suc (length ?f) = length h" .
    with wf have "length (T # ?f) \<le> 20" by (simp add: historyList_def)
    then have eq: "h' = T # ?f" by (simp add: h')
    then show ?thesis using len by auto
  qed
  have drop_oldest: "h' = T # take 19 h \<and> last h \<notin> set h'"
    if wf: "historyList h" and len: "length h = 20" and nex: "trim T \<notin> trim ` set h"
  proof -
    from nex have "\<forall>m \<in> set h. trim m \<noteq> trim T" by (metis image_eqI)
    then have f: "?f = h" by (simp add: filter_id_conv)
    then have eq: "h' = T # take 19 h" by (simp add: h')
    from wf have dh: "distinct h"
      by (simp add: historyList_def distinct_map)
    from len have ne: "h \<noteq> []" by auto
    have "butlast h = take 19 h"
      using len by (simp add: butlast_conv_take)
    with ne have "h = take 19 h @ [last h]"
      by (metis append_butlast_last_id)
    with dh have "distinct (take 19 h @ [last h])"
      by simp
    then have "last h \<notin> set (take 19 h)"
      by simp
    moreover from nex ne have "last h \<noteq> T"
      by (metis image_eqI last_in_set)
    ultimately show ?thesis using eq by auto
  qed
  from bound bubble drop_oldest show ?thesis by blast
qed

theorem history_bubble_to_top_bounded_witness:
  "historyList [js ''b'', js ''a'', js ''c''] \<and> trim (js '' a '') \<in> trim ` set [js ''b'', js ''a'', js ''c'']
   \<and> loadMessagesFromHistory (appendMessageToHistory (js '' a '') 20 (LocalStorage (Some [js ''b'', js ''a'', js ''c'']))) ! 0 = js '' a ''
   \<and> length (loadMessagesFromHistory (appendMessageToHistory (js '' a '') 20 (LocalStorage (Some [js ''b'', js ''a'', js ''c''])))) = 3
   \<and> historyList twentyTexts \<and> length twentyTexts = 20 \<and> trim (js ''u'') \<notin> trim ` set twentyTexts
   \<and> loadMessagesFromHistory (appendMessageToHistory (js ''u'') 20 (LocalStorage (Some twentyTexts)))
       = js ''u'' # map (\<lambda>c. [c]) (js ''abcdefghijklmnopqrs'')"
proof -
  have a1: "historyList [js ''b'', js ''a'', js ''c'']"
    by code_simp
  have a2: "trim (js '' a '') \<in> trim ` set [js ''b'', js ''a'', js ''c'']"
    by code_simp
  have b1: "historyList twentyTexts"
    by code_simp
  have b2: "length twentyTexts = 20"
    by (simp add: twentyTexts_def)
  have b3: "trim (js ''u'') \<notin> trim ` set twentyTexts"
    by code_simp
  have b4: "take 19 twentyTexts = map (\<lambda>c. [c]) (js ''abcdefghijklmnopqrs'')"
    by (simp add: twentyTexts_def js_def)
  from history_bubble_to_top_bounded [of "[js ''b'', js ''a'', js ''c'']" "(js '' a '')"] a1 a2
  have "length (loadMessagesFromHistory (appendMessageToHistory (js '' a '') 20 (LocalStorage (Some [js ''b'', js ''a'', js ''c''])))) = length [js ''b'', js ''a'', js ''c'']
      \<and> loadMessagesFromHistory (appendMessageToHistory (js '' a '') 20 (LocalStorage (Some [js ''b'', js ''a'', js ''c'']))) ! 0 = js '' a ''"
    by blast
  then have c1: "loadMessagesFromHistory (appendMessageToHistory (js '' a '') 20 (LocalStorage (Some [js ''b'', js ''a'', js ''c'']))) ! 0 = js '' a ''"
    and c2: "length (loadMessagesFromHistory (appendMessageToHistory (js '' a '') 20 (LocalStorage (Some [js ''b'', js ''a'', js ''c''])))) = 3"
    by simp_all
  from history_bubble_to_top_bounded [of twentyTexts "(js ''u'')"] b1 b2 b3
  have "loadMessagesFromHistory (appendMessageToHistory (js ''u'') 20 (LocalStorage (Some twentyTexts)))
       = js ''u'' # take 19 twentyTexts"
    by blast
  with b4 have c3: "loadMessagesFromHistory (appendMessageToHistory (js ''u'') 20 (LocalStorage (Some twentyTexts)))
       = js ''u'' # map (\<lambda>c. [c]) (js ''abcdefghijklmnopqrs'')"
    by simp
  from a1 a2 c1 c2 b1 b2 b3 c3 show ?thesis
    by blast
qed

section \<open>Properties of the stream decoder\<close>

lemma js_open: "js ''{'' = [0x7B]"
  by (simp add: js_def cu_def)

lemma js_close: "js ''}'' = [0x7D]"
  by (simp add: js_def cu_def)

lemma indexOf_char:
  "indexOf s [c] = (if c \<in> set s then int (length (takeWhile (\<lambda>x. x \<noteq> c) s)) else - 1)"
  by (induction s) (auto simp: startsWith_def Let_def)

lemma indexOf_close:
  "indexOf s (js ''}'') = (if 0x7D \<in> set s then int (length (takeWhile notClose s)) else - 1)"
  unfolding notClose_def js_close by (rule indexOf_char)

lemma startsWith_open: "startsWith s (js ''{'') \<longleftrightarrow> (\<exists>r. s = 0x7B # r)"
  by (cases s) (auto simp: startsWith_def js_open)

lemma framed_index_pos:
  assumes "startsWith s (js ''{'')"
  shows "0 < indexOf s (js ''}'') \<longleftrightarrow> 0x7D \<in> set s"
proof -
  from assms obtain r where "s = 0x7B # r"
    by (auto simp: startsWith_open)
  then show ?thesis
    by (simp add: indexOf_close notClose_def)
qed

lemma split_at_close:
  assumes "0x7D \<in> set s"
  shows "s = jsonPrefix s @ afterPrefix s"
proof -
  from assms have "dropWhile notClose s \<noteq> []"
    by (auto simp: notClose_def dropWhile_eq_Nil_conv)
  moreover from this have "hd (dropWhile notClose s) = 0x7D"
    using hd_dropWhile [of notClose s] by (simp add: notClose_def)
  ultimately have "dropWhile notClose s = 0x7D # afterPrefix s"
    unfolding afterPrefix_def by (metis hd_Cons_tl)
  then have "takeWhile notClose s @ 0x7D # afterPrefix s = s"
    by (metis takeWhile_dropWhile_id)
  then show ?thesis
    by (simp add: jsonPrefix_def js_close)
qed

lemma length_jsonPrefix: "length (jsonPrefix s) = Suc (length (takeWhile notClose s))"
  by (simp add: jsonPrefix_def js_close)

lemma substring_prefix:
  assumes "0x7D \<in> set s"
  shows "substring s 0 (indexOf s (js ''}'') + 1) = jsonPrefix s"
    and "substringFrom s (indexOf s (js ''}'') + 1) = afterPrefix s"
proof -
  let ?n = "Suc (length (takeWhile notClose s))"
  have s: "s = jsonPrefix s @ afterPrefix s"
    by (rule split_at_close [OF assms])
  have i: "nat (indexOf s (js ''}'') + 1) = ?n"
    using assms by (simp add: indexOf_close)
  have le: "?n \<le> length s"
    by (metis s length_jsonPrefix length_append le_add1)
  have t: "take ?n s = jsonPrefix s"
    by (metis s length_jsonPrefix append_eq_conv_conj)
  have d: "drop ?n s = afterPrefix s"
    by (metis s length_jsonPrefix append_eq_conv_conj)
  from i le t show "substring s 0 (indexOf s (js ''}'') + 1) = jsonPrefix s"
    by (simp add: substring_def clampIndex_def)
  from i le d show "substringFrom s (indexOf s (js ''}'') + 1) = afterPrefix s"
    by (simp add: substringFrom_def clampIndex_def)
qed

lemma processChunk_cases:
  fixes d c
  defines "m \<equiv> newBotMessage d"
  defines "t \<equiv> text m @ c"
  shows "processChunk parse d c =
     (if \<not> truthy (model m) \<and> framed t then
        (case tryParse parse (jsonPrefix t) of
           None \<Rightarrow> \<lparr>newBotMessage = m\<lparr>text := t\<rparr>, parseCalls = parseCalls d @ [jsonPrefix t]\<rparr>
         | Some v \<Rightarrow> \<lparr>newBotMessage = m\<lparr>text := afterPrefix t, model := v\<rparr>,
                      parseCalls = parseCalls d @ [jsonPrefix t]\<rparr>)
      else \<lparr>newBotMessage = m\<lparr>text := t\<rparr>, parseCalls = parseCalls d\<rparr>)"
proof (cases "\<not> truthy (model m) \<and> startsWith t (js ''{'')")
  case False
  then show ?thesis
    by (auto simp: processChunk_def Let_def framed_def m_def t_def)
next
  case True
  show ?thesis
  proof (cases "0x7D \<in> set t")
    case False
    with True have "\<not> 0 < indexOf t (js ''}'')" "\<not> framed t"
      by (simp_all add: framed_index_pos framed_def)
    with True show ?thesis
      by (simp add: processChunk_def Let_def m_def t_def)
  next
    case close: True
    with True have pos: "0 < indexOf t (js ''}'')" and fr: "framed t"
      by (simp_all add: framed_index_pos framed_def)
    note sub = substring_prefix [OF close]
    from True pos fr sub show ?thesis
      by (simp add: processChunk_def Let_def m_def t_def tryParse_def split: option.splits)
  qed
qed

lemma framed_append: "framed a \<Longrightarrow> framed (a @ b)"
  by (auto simp: framed_def startsWith_open)

lemma prefix_append:
  assumes "0x7D \<in> set a"
  shows "jsonPrefix (a @ b) = jsonPrefix a" and "afterPrefix (a @ b) = afterPrefix a @ b"
proof -
  from assms have ex: "\<exists>x \<in> set a. \<not> notClose x"
    by (auto simp: notClose_def)
  then have "takeWhile notClose (a @ b) = takeWhile notClose a"
    by (metis takeWhile_append1)
  then show "jsonPrefix (a @ b) = jsonPrefix a"
    by (simp add: jsonPrefix_def js_close)
  from ex have "dropWhile notClose (a @ b) = dropWhile notClose a @ b"
    by (metis dropWhile_append1)
  moreover from ex have "dropWhile notClose a \<noteq> []"
    by (simp add: dropWhile_eq_Nil_conv)
  ultimately show "afterPrefix (a @ b) = afterPrefix a @ b"
    by (simp add: afterPrefix_def)
qed

lemma loop_model_set:
  "truthy (model (newBotMessage d)) \<Longrightarrow>
   foldl (processChunk parse) d cs =
     \<lparr>newBotMessage = (newBotMessage d)\<lparr>text := text (newBotMessage d) @ concat cs\<rparr>,
      parseCalls = parseCalls d\<rparr>"
proof (induction cs arbitrary: d)
  case Nil
  then show ?case by simp
next
  case (Cons c cs)
  let ?d = "processChunk parse d c"
  from Cons.prems have d: "?d = \<lparr>newBotMessage = (newBotMessage d)\<lparr>text := text (newBotMessage d) @ c\<rparr>,
      parseCalls = parseCalls d\<rparr>"
    by (simp add: processChunk_cases)
  with Cons.prems have "truthy (model (newBotMessage ?d))"
    by simp
  from Cons.IH [OF this] d show ?case
    by simp
qed

lemma loop_unframed:
  "\<not> truthy (model (newBotMessage d)) \<Longrightarrow> \<not> framed (text (newBotMessage d) @ concat cs) \<Longrightarrow>
   foldl (processChunk parse) d cs =
     \<lparr>newBotMessage = (newBotMessage d)\<lparr>text := text (newBotMessage d) @ concat cs\<rparr>,
      parseCalls = parseCalls d\<rparr>"
proof (induction cs arbitrary: d)
  case Nil
  then show ?case by simp
next
  case (Cons c cs)
  let ?d = "processChunk parse d c"
  let ?t = "text (newBotMessage d) @ c"
  from Cons.prems(2) have nf: "\<not> framed ?t"
    using framed_append [of ?t "concat cs"] by auto
  with Cons.prems have d: "?d = \<lparr>newBotMessage = (newBotMessage d)\<lparr>text := ?t\<rparr>,
      parseCalls = parseCalls d\<rparr>"
    by (simp add: processChunk_cases)
  with Cons.prems have "\<not> truthy (model (newBotMessage ?d))"
    and "\<not> framed (text (newBotMessage ?d) @ concat cs)"
    by simp_all
  from Cons.IH [OF this] d show ?case
    by simp
qed

lemma loop_parse_fails:
  assumes "\<not> truthy (model (newBotMessage d))"
    and "framed (text (newBotMessage d) @ concat cs)"
    and "tryParse parse (jsonPrefix (text (newBotMessage d) @ concat cs)) = None"
  shows "newBotMessage (foldl (processChunk parse) d cs) =
           (newBotMessage d)\<lparr>text := text (newBotMessage d) @ concat cs\<rparr>
       \<and> set (parseCalls (foldl (processChunk parse) d cs))
           \<subseteq> set (parseCalls d) \<union> {jsonPrefix (text (newBotMessage d) @ concat cs)}"
  using assms
proof (induction cs arbitrary: d)
  case Nil
  then show ?case by auto
next
  case (Cons c cs)
  let ?d = "processChunk parse d c"
  let ?t = "text (newBotMessage d) @ c"
  let ?s = "text (newBotMessage d) @ concat (c # cs)"
  have s: "?s = ?t @ concat cs"
    by simp
  have d: "newBotMessage ?d = (newBotMessage d)\<lparr>text := ?t\<rparr>
      \<and> set (parseCalls ?d) \<subseteq> set (parseCalls d) \<union> {jsonPrefix ?s}"
  proof (cases "framed ?t")
    case False
    with Cons.prems show ?thesis
      by (auto simp: processChunk_cases)
  next
    case True
    then have "0x7D \<in> set ?t"
      by (simp add: framed_def)
    from prefix_append(1) [OF this, of "concat cs"] have "jsonPrefix ?s = jsonPrefix ?t"
      by simp
    with Cons.prems(3) have "tryParse parse (jsonPrefix ?t) = None"
      by simp
    with True Cons.prems(1) \<open>jsonPrefix ?s = jsonPrefix ?t\<close> show ?thesis
      by (auto simp: processChunk_cases)
  qed
  with Cons.prems have "\<not> truthy (model (newBotMessage ?d))"
    and "framed (text (newBotMessage ?d) @ concat cs)"
    and "tryParse parse (jsonPrefix (text (newBotMessage ?d) @ concat cs)) = None"
    by simp_all
  from Cons.IH [OF this] d show ?case
    by auto
qed

lemma loop_parse_succeeds:
  assumes "\<not> truthy (model (newBotMessage d))"
    and "\<not> framed (text (newBotMessage d))"
    and "framed (text (newBotMessage d) @ concat cs)"
    and "tryParse parse (jsonPrefix (text (newBotMessage d) @ concat cs)) = Some v"
    and "truthy v"
  shows "foldl (processChunk parse) d cs =
           \<lparr>newBotMessage = (newBotMessage d)\<lparr>text := afterPrefix (text (newBotMessage d) @ concat cs), model := v\<rparr>,
            parseCalls = parseCalls d @ [jsonPrefix (text (newBotMessage d) @ concat cs)]\<rparr>"
  using assms
proof (induction cs arbitrary: d)
  case Nil
  then show ?case by simp
next
  case (Cons c cs)
  let ?d = "processChunk parse d c"
  let ?t = "text (newBotMessage d) @ c"
  let ?s = "text (newBotMessage d) @ concat (c # cs)"
  have s: "?s = ?t @ concat cs"
    by simp
  show ?case
  proof (cases "framed ?t")
    case False
    with Cons.prems have d: "?d = \<lparr>newBotMessage = (newBotMessage d)\<lparr>text := ?t\<rparr>,
        parseCalls = parseCalls d\<rparr>"
      by (simp add: processChunk_cases)
    with Cons.prems False have "\<not> truthy (model (newBotMessage ?d))"
      and "\<not> framed (text (newBotMessage ?d))"
      and "framed (text (newBotMessage ?d) @ concat cs)"
      and "tryParse parse (jsonPrefix (text (newBotMessage ?d) @ concat cs)) = Some v"
      by simp_all
    from Cons.IH [OF this \<open>truthy v\<close>] d show ?thesis
      by simp
  next
    case True
    then have "0x7D \<in> set ?t"
      by (simp add: framed_def)
    from prefix_append [OF this, of "concat cs"]
    have p: "jsonPrefix ?s = jsonPrefix ?t" "afterPrefix ?s = afterPrefix ?t @ concat cs"
      by simp_all
    with Cons.prems(4) have "tryParse parse (jsonPrefix ?t) = Some v"
      by simp
    with True Cons.prems(1) have d: "?d = \<lparr>newBotMessage = (newBotMessage d)\<lparr>text := afterPrefix ?t, model := v\<rparr>,
        parseCalls = parseCalls d @ [jsonPrefix ?t]\<rparr>"
      by (simp add: processChunk_cases)
    with \<open>truthy v\<close> have "truthy (model (newBotMessage ?d))"
      by simp
    from loop_model_set [OF this, of parse cs] d p show ?thesis
      by simp
  qed
qed

lemma createUiMessage_fields [simp]:
  "uid (createUiMessage random r t) = random"
  "text (createUiMessage random r t) = t"
  "model (createUiMessage random r t) = JString []"
  "role (createUiMessage random r t) = r"
  by (cases r; simp add: createUiMessage_def)+

lemma framed_Nil [simp]: "\<not> framed []"
  by (simp add: framed_def)

lemma reads_are_texts:
  "foldl (readChunk parse) d chunks = foldl (processChunk parse) d (map decode chunks)"
  by (induction chunks arbitrary: d) (simp_all add: readChunk_def)

lemma decodeStream_texts:
  "decodeStream parse random chunks =
     foldl (processChunk parse) \<lparr>newBotMessage = createUiMessage random Assistant [], parseCalls = []\<rparr>
       (map decode chunks)"
  by (simp add: decodeStream_def reads_are_texts)

lemma readsText_append: "readsText (chunks @ later) = readsText chunks @ readsText later"
  by (simp add: readsText_def)

lemma decodeStream_unframed:
  assumes "\<not> framed (readsText chunks)"
  shows "decodeStream parse random chunks =
     \<lparr>newBotMessage = (createUiMessage random Assistant [])\<lparr>text := readsText chunks\<rparr>, parseCalls = []\<rparr>"
  using assms
    loop_unframed [of "\<lparr>newBotMessage = createUiMessage random Assistant [], parseCalls = []\<rparr>"
      "map decode chunks" parse]
  by (simp add: decodeStream_texts readsText_def)

lemma decodeStream_fails:
  assumes "framed (readsText chunks)" and "tryParse parse (jsonPrefix (readsText chunks)) = None"
  shows "newBotMessage (decodeStream parse random chunks)
           = (createUiMessage random Assistant [])\<lparr>text := readsText chunks\<rparr>"
    and "set (parseCalls (decodeStream parse random chunks)) \<subseteq> {jsonPrefix (readsText chunks)}"
  using assms
    loop_parse_fails [of "\<lparr>newBotMessage = createUiMessage random Assistant [], parseCalls = []\<rparr>"
      "map decode chunks" parse]
  by (simp_all add: decodeStream_texts readsText_def)

lemma decodeStream_succeeds:
  assumes "framed (readsText chunks)" and "tryParse parse (jsonPrefix (readsText chunks)) = Some v"
    and "truthy v"
  shows "decodeStream parse random chunks =
     \<lparr>newBotMessage = (createUiMessage random Assistant [])\<lparr>text := afterPrefix (readsText chunks), model := v\<rparr>,
      parseCalls = [jsonPrefix (readsText chunks)]\<rparr>"
  using assms
    loop_parse_succeeds [of "\<lparr>newBotMessage = createUiMessage random Assistant [], parseCalls = []\<rparr>"
      "map decode chunks" parse v]
  by (simp add: decodeStream_texts readsText_def)

lemma decodeStream_decoded:
  assumes "\<not> falsyPreamble parse (readsText chunks)"
  shows "newBotMessage (decodeStream parse random chunks) = decoded parse random (readsText chunks)"
proof (cases "framed (readsText chunks)")
  case False
  then show ?thesis
    by (simp add: decodeStream_unframed decoded_def)
next
  case True
  show ?thesis
  proof (cases "tryParse parse (jsonPrefix (readsText chunks))")
    case None
    with True show ?thesis
      by (simp add: decodeStream_fails(1) decoded_def)
  next
    case (Some v)
    with True assms have "truthy v"
      by (simp add: falsyPreamble_def)
    with True Some show ?thesis
      by (simp add: decodeStream_succeeds decoded_def)
  qed
qed

lemma jsonPrefix_is_take:
  assumes "0x7D \<in> set s"
  shows "jsonPrefix s = take (length (jsonPrefix s)) s" and "length (jsonPrefix s) \<le> length s"
proof -
  have s: "s = jsonPrefix s @ afterPrefix s"
    by (rule split_at_close [OF assms])
  then show "jsonPrefix s = take (length (jsonPrefix s)) s"
    by (metis append_eq_conv_conj)
  from s show "length (jsonPrefix s) \<le> length s"
    by (metis length_append le_add1)
qed

lemma prefix_of_object:
  assumes "0x7D \<notin> set body"
  shows "jsonPrefix (js ''{'' @ body @ js ''}'' @ trailing) = js ''{'' @ body @ js ''}''"
    and "afterPrefix (js ''{'' @ body @ js ''}'' @ trailing) = trailing"
    and "framed (js ''{'' @ body @ js ''}'' @ trailing)"
proof -
  from assms have all: "\<forall>x \<in> set (0x7B # body). notClose x"
    by (auto simp: notClose_def)
  have t: "takeWhile notClose ((0x7B # body) @ 0x7D # trailing) = 0x7B # body"
    using all by (intro takeWhile_append2 [THEN trans]) (auto simp: notClose_def)
  have d: "dropWhile notClose ((0x7B # body) @ 0x7D # trailing) = 0x7D # trailing"
    using all by (subst dropWhile_append2) (auto simp: notClose_def)
  from t show "jsonPrefix (js ''{'' @ body @ js ''}'' @ trailing) = js ''{'' @ body @ js ''}''"
    by (simp add: jsonPrefix_def js_open js_close)
  from d show "afterPrefix (js ''{'' @ body @ js ''}'' @ trailing) = trailing"
    by (simp add: afterPrefix_def js_open js_close)
  show "framed (js ''{'' @ body @ js ''}'' @ trailing)"
    by (simp add: framed_def startsWith_def js_open js_close)
qed

lemma loop_fail_count:
  assumes "\<not> truthy (model (newBotMessage d))"
    and "framed (text (newBotMessage d))"
    and "tryParse parse (jsonPrefix (text (newBotMessage d))) = None"
  shows "length (parseCalls (foldl (processChunk parse) d cs)) = length (parseCalls d) + length cs"
  using assms
proof (induction cs arbitrary: d)
  case Nil
  then show ?case by simp
next
  case (Cons c cs)
  let ?d = "processChunk parse d c"
  let ?t = "text (newBotMessage d) @ c"
  from Cons.prems(2) have f: "framed ?t"
    by (rule framed_append)
  from Cons.prems(2) have "0x7D \<in> set (text (newBotMessage d))"
    by (simp add: framed_def)
  from prefix_append(1) [OF this, of c] Cons.prems(3)
  have n: "tryParse parse (jsonPrefix ?t) = None"
    by simp
  with f Cons.prems(1) have d: "?d = \<lparr>newBotMessage = (newBotMessage d)\<lparr>text := ?t\<rparr>,
      parseCalls = parseCalls d @ [jsonPrefix ?t]\<rparr>"
    by (simp add: processChunk_cases)
  with Cons.prems(1) f n have "\<not> truthy (model (newBotMessage ?d))"
    and "framed (text (newBotMessage ?d))"
    and "tryParse parse (jsonPrefix (text (newBotMessage ?d))) = None"
    by simp_all
  from Cons.IH [OF this] d show ?case
    by simp
qed

lemma decodeStream_append:
  "decodeStream parse random (chunks @ later) =
     foldl (processChunk parse) (decodeStream parse random chunks) (map decode later)"
  by (simp add: decodeStream_texts)

text \<open>Bytes below 128 are characters of their own: a read of such bytes decodes to them, and
  every way of cutting such a stream into reads gives the text of the stream.\<close>

lemma scalarValues_ascii:
  "\<forall>b \<in> set bs. b < 0x80 \<Longrightarrow> scalarValues None bs = bs"
  by (induction bs) (simp_all add: leadByte_def)

lemma decode_ascii:
  assumes "\<forall>b \<in> set value. of_char b < (0x80 :: nat)"
  shows "decode value = map of_char value"
proof -
  let ?bs = "map of_char value :: nat list"
  from assms have a: "\<forall>b \<in> set ?bs. b < 0x80"
    by simp
  then have s: "scalarValues None ?bs = ?bs"
    by (rule scalarValues_ascii)
  from a have u: "concat (map codeUnits ?bs) = ?bs"
    by (induction "value") (simp_all add: codeUnits_def)
  show ?thesis
  proof (cases "value")
    case Nil
    then show ?thesis
      by (simp add: decode_def)
  next
    case (Cons b bs)
    with assms have "of_char b \<noteq> (0xFEFF :: nat)"
      by auto
    with s u Cons show ?thesis
      by (simp add: decode_def Let_def)
  qed
qed

lemma readsText_ascii:
  assumes "\<forall>b \<in> set (concat chunks). of_char b < (0x80 :: nat)"
  shows "readsText chunks = decode (concat chunks)"
proof -
  from assms have "\<forall>c \<in> set chunks. decode c = map of_char c"
    by (auto intro: decode_ascii)
  then have "concat (map decode chunks) = map of_char (concat chunks)"
    by (induction chunks) simp_all
  with decode_ascii [OF assms] show ?thesis
    by (simp add: readsText_def)
qed

text \<open>
  Claim C1, as the code has it. Let the text of the stream, its bytes decoded as a whole, be a
  JSON object followed by any text, where the object has no closing brace before its last
  character and its \<open>model\<close> is truthy (the relay sends \<open>{"model":"..."}\<close>). Then, for every
  way of cutting the bytes of the stream into reads such that the reads, each decoded on its own
  as the loop does, give the text of the stream (as they do when no read ends inside a
  character), the decoder calls \<open>JSON.parse\<close> exactly once, on the object, sets the model of
  the pending message from the object's \<open>model\<close>, and the final text of the pending message is
  the text that follows the object.
\<close>

theorem preamble_extracted_once:
  assumes "readsText chunks = decode (concat chunks)"
    and "decode (concat chunks) = js ''{'' @ body @ js ''}'' @ trailing"
    and "0x7D \<notin> set body"
    and "parse (js ''{'' @ body @ js ''}'') = Some parsed"
    and "modelOf parsed = Some v"
    and "truthy v"
  shows "text (newBotMessage (decodeStream parse random chunks)) = trailing
       \<and> model (newBotMessage (decodeStream parse random chunks)) = v
       \<and> parseCalls (decodeStream parse random chunks) = [js ''{'' @ body @ js ''}'']"
proof -
  note p = prefix_of_object [OF assms(3), of trailing]
  from assms(1,2) have r: "readsText chunks = js ''{'' @ body @ js ''}'' @ trailing"
    by simp
  from assms(4,5) have "tryParse parse (js ''{'' @ body @ js ''}'') = Some v"
    by (simp add: tryParse_def)
  with p r have "framed (readsText chunks)"
    and "tryParse parse (jsonPrefix (readsText chunks)) = Some v"
    by simp_all
  from decodeStream_succeeds [OF this \<open>truthy v\<close>, of random] p r show ?thesis
    by simp
qed

theorem preamble_extracted_once_witness:
  \<open>readsText [''{"mod'', ''el":"gpt-4"}'' @ [CHR 0xE4, CHR 0xBD, CHR 0xA0], ''Hello'']
     = decode (concat [''{"mod'', ''el":"gpt-4"}'' @ [CHR 0xE4, CHR 0xBD, CHR 0xA0], ''Hello''])
   \<and> decode (concat [''{"mod'', ''el":"gpt-4"}'' @ [CHR 0xE4, CHR 0xBD, CHR 0xA0], ''Hello''])
     = js ''{'' @ js ''"model":"gpt-4"'' @ js ''}'' @ (0x4F60 # js ''Hello'')
   \<and> JSON_parse (js ''{'' @ js ''"model":"gpt-4"'' @ js ''}'')
     = Some (JObject [(js ''model'', JString (js ''gpt-4''))])
   \<and> text (newBotMessage (decodeStream JSON_parse (js ''r'')
        [''{"mod'', ''el":"gpt-4"}'' @ [CHR 0xE4, CHR 0xBD, CHR 0xA0], ''Hello''])) = 0x4F60 # js ''Hello''
   \<and> model (newBotMessage (decodeStream JSON_parse (js ''r'')
        [''{"mod'', ''el":"gpt-4"}'' @ [CHR 0xE4, CHR 0xBD, CHR 0xA0], ''Hello''])) = JString (js ''gpt-4'')
   \<and> parseCalls (decodeStream JSON_parse (js ''r'')
        [''{"mod'', ''el":"gpt-4"}'' @ [CHR 0xE4, CHR 0xBD, CHR 0xA0], ''Hello''])
     = [js ''{'' @ js ''"model":"gpt-4"'' @ js ''}'']\<close>
proof -
  have h1: \<open>readsText [''{"mod'', ''el":"gpt-4"}'' @ [CHR 0xE4, CHR 0xBD, CHR 0xA0], ''Hello'']
     = decode (concat [''{"mod'', ''el":"gpt-4"}'' @ [CHR 0xE4, CHR 0xBD, CHR 0xA0], ''Hello''])\<close>
    by code_simp
  have h2: \<open>decode (concat [''{"mod'', ''el":"gpt-4"}'' @ [CHR 0xE4, CHR 0xBD, CHR 0xA0], ''Hello''])
     = js ''{'' @ js ''"model":"gpt-4"'' @ js ''}'' @ (0x4F60 # js ''Hello'')\<close>
    by code_simp
  have h3: \<open>0x7D \<notin> set (js ''"model":"gpt-4"'')\<close>
    by code_simp
  have h4: \<open>JSON_parse (js ''{'' @ js ''"model":"gpt-4"'' @ js ''}'')
     = Some (JObject [(js ''model'', JString (js ''gpt-4''))])\<close>
    by code_simp
  have h5: "modelOf (JObject [(js ''model'', JString (js ''gpt-4''))]) = Some (JString (js ''gpt-4''))"
    by code_simp
  have h6: "truthy (JString (js ''gpt-4''))"
    by code_simp
  note run = preamble_extracted_once
    [where chunks = \<open>[''{"mod'', ''el":"gpt-4"}'' @ [CHR 0xE4, CHR 0xBD, CHR 0xA0], ''Hello'']\<close>
       and body = \<open>js ''"model":"gpt-4"''\<close> and trailing = "0x4F60 # js ''Hello''"
       and parse = JSON_parse and v = "JString (js ''gpt-4'')"
       and parsed = "JObject [(js ''model'', JString (js ''gpt-4''))]" and random = "js ''r''"]
  from run [OF h1 h2 h3 h4 h5 h6] h1 h2 h4 show ?thesis
    by blast
qed

theorem preamble_counterexample:
  \<open>JSON_parse (js ''{"k":"}","model":"m"}'')
     = Some (JObject [(js ''k'', JString (js ''}'')), (js ''model'', JString (js ''m''))])
   \<and> text (newBotMessage (decodeStream JSON_parse (js ''r'') [''{"k":"}","model":"m"}rest'']))
       = js ''{"k":"}","model":"m"}rest''
   \<and> model (newBotMessage (decodeStream JSON_parse (js ''r'') [''{"k":"}","model":"m"}rest''])) = JString []
   \<and> JSON_parse (js ''{"model":""}'') = Some (JObject [(js ''model'', JString [])])
   \<and> text (newBotMessage (decodeStream JSON_parse (js ''r'') [''{"model":""}'', ''{"a":"b"}c''])) = js ''c''
   \<and> parseCalls (decodeStream JSON_parse (js ''r'') [''{"model":""}'', ''{"a":"b"}c''])
       = [js ''{"model":""}'', js ''{"a":"b"}'']
   \<and> decode (concat [''{"model":"gpt-4"}'' @ [CHR 0xE4, CHR 0xBD], [CHR 0xA0]])
       = js ''{"model":"gpt-4"}'' @ [0x4F60]
   \<and> JSON_parse (js ''{"model":"gpt-4"}'') = Some (JObject [(js ''model'', JString (js ''gpt-4''))])
   \<and> text (newBotMessage (decodeStream JSON_parse (js ''r'')
        [''{"model":"gpt-4"}'' @ [CHR 0xE4, CHR 0xBD], [CHR 0xA0]])) = [0xFFFD, 0xFFFD]\<close>
  by code_simp

text \<open>
  Claim C2, as the code has it. Once the reads so far have set a truthy model, every later
  read is appended to the text and nothing else: no text is parsed and no prefix is removed.
  When the text of the reads so far holds a closing brace and the parse of the text up to it
  fails, no prefix is ever removed, and every later read repeats the parse on that same text.
\<close>

theorem parse_attempts:
  "(truthy (model (newBotMessage (decodeStream parse random chunks))) \<longrightarrow>
      decodeStream parse random (chunks @ later) =
        \<lparr>newBotMessage = (newBotMessage (decodeStream parse random chunks))
           \<lparr>text := text (newBotMessage (decodeStream parse random chunks)) @ readsText later\<rparr>,
         parseCalls = parseCalls (decodeStream parse random chunks)\<rparr>)
   \<and> (framed (readsText chunks) \<and> tryParse parse (jsonPrefix (readsText chunks)) = None \<longrightarrow>
      text (newBotMessage (decodeStream parse random (chunks @ later))) = readsText chunks @ readsText later
      \<and> (\<forall>j \<in> set (parseCalls (decodeStream parse random (chunks @ later))). j = jsonPrefix (readsText chunks))
      \<and> length (parseCalls (decodeStream parse random (chunks @ later)))
          = length (parseCalls (decodeStream parse random chunks)) + length later)"
proof (intro conjI impI)
  assume "truthy (model (newBotMessage (decodeStream parse random chunks)))"
  from loop_model_set [OF this, of parse "map decode later"]
  show "decodeStream parse random (chunks @ later) =
        \<lparr>newBotMessage = (newBotMessage (decodeStream parse random chunks))
           \<lparr>text := text (newBotMessage (decodeStream parse random chunks)) @ readsText later\<rparr>,
         parseCalls = parseCalls (decodeStream parse random chunks)\<rparr>"
    by (simp add: decodeStream_append readsText_def)
next
  assume a: "framed (readsText chunks) \<and> tryParse parse (jsonPrefix (readsText chunks)) = None"
  then have c: "0x7D \<in> set (readsText chunks)"
    by (simp add: framed_def)
  from a have f: "framed (readsText (chunks @ later))"
    by (simp add: framed_append readsText_append)
  from prefix_append(1) [OF c, of "readsText later"]
  have p: "jsonPrefix (readsText (chunks @ later)) = jsonPrefix (readsText chunks)"
    by (simp add: readsText_append)
  with a have n: "tryParse parse (jsonPrefix (readsText (chunks @ later))) = None"
    by simp
  from decodeStream_fails(1) [OF f n, of random]
  show "text (newBotMessage (decodeStream parse random (chunks @ later))) = readsText chunks @ readsText later"
    by (simp add: readsText_append)
  from decodeStream_fails(2) [OF f n, of random] p
  show "\<forall>j \<in> set (parseCalls (decodeStream parse random (chunks @ later))). j = jsonPrefix (readsText chunks)"
    by auto
  from a decodeStream_fails(1) [of chunks parse random]
  have "newBotMessage (decodeStream parse random chunks)
          = (createUiMessage random Assistant [])\<lparr>text := readsText chunks\<rparr>"
    by simp
  with a have "\<not> truthy (model (newBotMessage (decodeStream parse random chunks)))"
    and "framed (text (newBotMessage (decodeStream parse random chunks)))"
    and "tryParse parse (jsonPrefix (text (newBotMessage (decodeStream parse random chunks)))) = None"
    by simp_all
  from loop_fail_count [OF this, of "map decode later"]
  show "length (parseCalls (decodeStream parse random (chunks @ later)))
          = length (parseCalls (decodeStream parse random chunks)) + length later"
    by (simp add: decodeStream_append)
qed

theorem parse_attempts_witness:
  \<open>truthy (model (newBotMessage (decodeStream JSON_parse (js ''r'') [''{"model":"gpt-4"}He''])))
   \<and> decodeStream JSON_parse (js ''r'') ([''{"model":"gpt-4"}He''] @ [''l'', ''lo'']) =
        \<lparr>newBotMessage = (newBotMessage (decodeStream JSON_parse (js ''r'') [''{"model":"gpt-4"}He'']))
           \<lparr>text := text (newBotMessage (decodeStream JSON_parse (js ''r'') [''{"model":"gpt-4"}He''])) @ js ''llo''\<rparr>,
         parseCalls = parseCalls (decodeStream JSON_parse (js ''r'') [''{"model":"gpt-4"}He''])\<rparr>
   \<and> framed (readsText [''{a'', ''}b'']) \<and> tryParse JSON_parse (jsonPrefix (readsText [''{a'', ''}b''])) = None
   \<and> text (newBotMessage (decodeStream JSON_parse (js ''r'') ([''{a'', ''}b''] @ [''c'', ''d'']))) = js ''{a}bcd''
   \<and> length (parseCalls (decodeStream JSON_parse (js ''r'') ([''{a'', ''}b''] @ [''c'', ''d'']))) = 3\<close>
proof -
  have h1: \<open>truthy (model (newBotMessage (decodeStream JSON_parse (js ''r'') [''{"model":"gpt-4"}He''])))\<close>
    by code_simp
  have h2: "framed (readsText [''{a'', ''}b'']) \<and> tryParse JSON_parse (jsonPrefix (readsText [''{a'', ''}b''])) = None"
    by code_simp
  have h3: "length (parseCalls (decodeStream JSON_parse (js ''r'') [''{a'', ''}b''])) = 1"
    by code_simp
  have t1: "readsText [''l'', ''lo''] = js ''llo''"
    by code_simp
  have t2: "readsText [''{a'', ''}b''] @ readsText [''c'', ''d''] = js ''{a}bcd''"
    by code_simp
  note a = parse_attempts [where parse = JSON_parse and random = "js ''r''"
      and chunks = \<open>[''{"model":"gpt-4"}He'']\<close> and later = "[''l'', ''lo'']"]
  note b = parse_attempts [where parse = JSON_parse and random = "js ''r''"
      and chunks = "[''{a'', ''}b'']" and later = "[''c'', ''d'']"]
  from a h1 have c1: \<open>decodeStream JSON_parse (js ''r'') ([''{"model":"gpt-4"}He''] @ [''l'', ''lo'']) =
        \<lparr>newBotMessage = (newBotMessage (decodeStream JSON_parse (js ''r'') [''{"model":"gpt-4"}He'']))
           \<lparr>text := text (newBotMessage (decodeStream JSON_parse (js ''r'') [''{"model":"gpt-4"}He''])) @ readsText [''l'', ''lo'']\<rparr>,
         parseCalls = parseCalls (decodeStream JSON_parse (js ''r'') [''{"model":"gpt-4"}He''])\<rparr>\<close>
    by blast
  from b h2 have c2: "text (newBotMessage (decodeStream JSON_parse (js ''r'') ([''{a'', ''}b''] @ [''c'', ''d''])))
        = readsText [''{a'', ''}b''] @ readsText [''c'', ''d'']"
    and c3: "length (parseCalls (decodeStream JSON_parse (js ''r'') ([''{a'', ''}b''] @ [''c'', ''d''])))
        = length (parseCalls (decodeStream JSON_parse (js ''r'') [''{a'', ''}b''])) + length [''c'', ''d'']"
    by blast+
  from c1 have c1': \<open>decodeStream JSON_parse (js ''r'') ([''{"model":"gpt-4"}He''] @ [''l'', ''lo'']) =
        \<lparr>newBotMessage = (newBotMessage (decodeStream JSON_parse (js ''r'') [''{"model":"gpt-4"}He'']))
           \<lparr>text := text (newBotMessage (decodeStream JSON_parse (js ''r'') [''{"model":"gpt-4"}He''])) @ js ''llo''\<rparr>,
         parseCalls = parseCalls (decodeStream JSON_parse (js ''r'') [''{"model":"gpt-4"}He''])\<rparr>\<close>
    unfolding t1 .
  from c2 have c2': "text (newBotMessage (decodeStream JSON_parse (js ''r'') ([''{a'', ''}b''] @ [''c'', ''d'']))) = js ''{a}bcd''"
    unfolding t2 .
  from c3 h3 have c3': "length (parseCalls (decodeStream JSON_parse (js ''r'') ([''{a'', ''}b''] @ [''c'', ''d'']))) = 3"
    by simp
  from h1 c1' h2 c2' c3' show ?thesis
    by blast
qed

theorem parse_attempts_counterexample:
  \<open>parseCalls (decodeStream JSON_parse (js ''r'') [''{a}'']) = [js ''{a}'']
   \<and> parseCalls (decodeStream JSON_parse (js ''r'') [''{a}'', ''b'']) = [js ''{a}'', js ''{a}'']
   \<and> parseCalls (decodeStream JSON_parse (js ''r'') [''{"model":""}'']) = [js ''{"model":""}'']
   \<and> text (newBotMessage (decodeStream JSON_parse (js ''r'') [''{"model":""}''])) = []
   \<and> parseCalls (decodeStream JSON_parse (js ''r'') [''{"model":""}'', ''{"model":"x"}hi''])
       = [js ''{"model":""}'', js ''{"model":"x"}'']
   \<and> text (newBotMessage (decodeStream JSON_parse (js ''r'') [''{"model":""}'', ''{"model":"x"}hi''])) = js ''hi''\<close>
  by code_simp

text \<open>
  Claim C3, as the code has it. Take two ways of cutting the same bytes into reads, such that
  for each of them the reads, each decoded on its own as the loop does, give the text of the
  stream (as they do when no read ends inside a character). They give the same final text and
  the same final model, unless the text of the stream up to its first closing brace parses to
  an object whose \<open>model\<close> is missing or falsy.
\<close>

theorem chunking_independent:
  assumes "concat chunks1 = concat chunks2"
    and "readsText chunks1 = decode (concat chunks1)"
    and "readsText chunks2 = decode (concat chunks2)"
    and "\<not> falsyPreamble parse (decode (concat chunks1))"
  shows "text (newBotMessage (decodeStream parse random chunks1))
           = text (newBotMessage (decodeStream parse random chunks2))
       \<and> model (newBotMessage (decodeStream parse random chunks1))
           = model (newBotMessage (decodeStream parse random chunks2))"
proof -
  from assms have "\<not> falsyPreamble parse (readsText chunks1)"
    and "\<not> falsyPreamble parse (readsText chunks2)"
    and "readsText chunks1 = readsText chunks2"
    by simp_all
  then show ?thesis
    by (simp add: decodeStream_decoded)
qed

theorem chunking_independent_witness:
  \<open>concat [''{"model":"gpt-4"}'' @ [CHR 0xC3, CHR 0xA9] @ ''Hello'']
     = concat [''{"mo'', ''del":"gpt-4"}'' @ [CHR 0xC3, CHR 0xA9] @ ''Hel'', ''lo'']
   \<and> readsText [''{"model":"gpt-4"}'' @ [CHR 0xC3, CHR 0xA9] @ ''Hello'']
     = decode (concat [''{"model":"gpt-4"}'' @ [CHR 0xC3, CHR 0xA9] @ ''Hello''])
   \<and> readsText [''{"mo'', ''del":"gpt-4"}'' @ [CHR 0xC3, CHR 0xA9] @ ''Hel'', ''lo'']
     = decode (concat [''{"mo'', ''del":"gpt-4"}'' @ [CHR 0xC3, CHR 0xA9] @ ''Hel'', ''lo''])
   \<and> \<not> falsyPreamble JSON_parse (decode (concat [''{"model":"gpt-4"}'' @ [CHR 0xC3, CHR 0xA9] @ ''Hello'']))
   \<and> text (newBotMessage (decodeStream JSON_parse (js ''r'') [''{"model":"gpt-4"}'' @ [CHR 0xC3, CHR 0xA9] @ ''Hello'']))
       = text (newBotMessage (decodeStream JSON_parse (js ''r'')
           [''{"mo'', ''del":"gpt-4"}'' @ [CHR 0xC3, CHR 0xA9] @ ''Hel'', ''lo'']))
   \<and> model (newBotMessage (decodeStream JSON_parse (js ''r'') [''{"model":"gpt-4"}'' @ [CHR 0xC3, CHR 0xA9] @ ''Hello'']))
       = model (newBotMessage (decodeStream JSON_parse (js ''r'')
           [''{"mo'', ''del":"gpt-4"}'' @ [CHR 0xC3, CHR 0xA9] @ ''Hel'', ''lo'']))
   \<and> text (newBotMessage (decodeStream JSON_parse (js ''r'')
           [''{"mo'', ''del":"gpt-4"}'' @ [CHR 0xC3, CHR 0xA9] @ ''Hel'', ''lo''])) = 0xE9 # js ''Hello''\<close>
proof -
  have h1: \<open>concat [''{"model":"gpt-4"}'' @ [CHR 0xC3, CHR 0xA9] @ ''Hello'']
     = concat [''{"mo'', ''del":"gpt-4"}'' @ [CHR 0xC3, CHR 0xA9] @ ''Hel'', ''lo'']\<close>
    by simp
  have h2: \<open>readsText [''{"model":"gpt-4"}'' @ [CHR 0xC3, CHR 0xA9] @ ''Hello'']
     = decode (concat [''{"model":"gpt-4"}'' @ [CHR 0xC3, CHR 0xA9] @ ''Hello''])\<close>
    by code_simp
  have h3: \<open>readsText [''{"mo'', ''del":"gpt-4"}'' @ [CHR 0xC3, CHR 0xA9] @ ''Hel'', ''lo'']
     = decode (concat [''{"mo'', ''del":"gpt-4"}'' @ [CHR 0xC3, CHR 0xA9] @ ''Hel'', ''lo''])\<close>
    by code_simp
  have h4: \<open>\<not> falsyPreamble JSON_parse (decode (concat [''{"model":"gpt-4"}'' @ [CHR 0xC3, CHR 0xA9] @ ''Hello'']))\<close>
    by code_simp
  have h5: \<open>text (newBotMessage (decodeStream JSON_parse (js ''r'')
           [''{"mo'', ''del":"gpt-4"}'' @ [CHR 0xC3, CHR 0xA9] @ ''Hel'', ''lo''])) = 0xE9 # js ''Hello''\<close>
    by code_simp
  from chunking_independent [OF h1 h2 h3 h4, of "js ''r''"] h1 h2 h3 h4 h5 show ?thesis
    by blast
qed

theorem chunking_counterexample:
  \<open>concat [''{}{"model":"x"}hi''] = concat [''{}'', ''{"model":"x"}hi'']
   \<and> text (newBotMessage (decodeStream JSON_parse (js ''r'') [''{}{"model":"x"}hi''])) = js ''{"model":"x"}hi''
   \<and> model (newBotMessage (decodeStream JSON_parse (js ''r'') [''{}{"model":"x"}hi''])) = JUndefined
   \<and> text (newBotMessage (decodeStream JSON_parse (js ''r'') [''{}'', ''{"model":"x"}hi''])) = js ''hi''
   \<and> model (newBotMessage (decodeStream JSON_parse (js ''r'') [''{}'', ''{"model":"x"}hi''])) = JString (js ''x'')
   \<and> concat [''{"model":"'' @ [CHR 0xC3, CHR 0xA9] @ ''"}'' @ [CHR 0xC3, CHR 0xA9]]
       = concat [''{"model":"'' @ [CHR 0xC3], [CHR 0xA9] @ ''"}'' @ [CHR 0xC3], [CHR 0xA9]]
   \<and> \<not> falsyPreamble JSON_parse (decode (concat [''{"model":"'' @ [CHR 0xC3, CHR 0xA9] @ ''"}'' @ [CHR 0xC3, CHR 0xA9]]))
   \<and> text (newBotMessage (decodeStream JSON_parse (js ''r'')
        [''{"model":"'' @ [CHR 0xC3, CHR 0xA9] @ ''"}'' @ [CHR 0xC3, CHR 0xA9]])) = [0xE9]
   \<and> model (newBotMessage (decodeStream JSON_parse (js ''r'')
        [''{"model":"'' @ [CHR 0xC3, CHR 0xA9] @ ''"}'' @ [CHR 0xC3, CHR 0xA9]])) = JString [0xE9]
   \<and> text (newBotMessage (decodeStream JSON_parse (js ''r'')
        [''{"model":"'' @ [CHR 0xC3], [CHR 0xA9] @ ''"}'' @ [CHR 0xC3], [CHR 0xA9]])) = [0xFFFD, 0xFFFD]
   \<and> model (newBotMessage (decodeStream JSON_parse (js ''r'')
        [''{"model":"'' @ [CHR 0xC3], [CHR 0xA9] @ ''"}'' @ [CHR 0xC3], [CHR 0xA9]])) = JString [0xFFFD, 0xFFFD]\<close>
  by code_simp

text \<open>
  Claim C4 at a stream that does not begin with a JSON object, the three bytes of the one
  character U+4F60, read in two reads with the boundary after the second byte. The text of the
  stream is that character; the final text of the pending message is two replacement
  characters U+FFFD, one for each read, since each read is decoded on its own. The model keeps
  the empty string it was created with, and \<open>JSON.parse\<close> is not called. Read in one read, the
  same bytes give the text of the stream.
\<close>

theorem split_character_not_verbatim:
  "decode (concat [[CHR 0xE4, CHR 0xBD], [CHR 0xA0]]) = [0x4F60]
   \<and> startsWith (decode (concat [[CHR 0xE4, CHR 0xBD], [CHR 0xA0]])) (js ''{'') = False
   \<and> text (newBotMessage (decodeStream JSON_parse (js ''r'') [[CHR 0xE4, CHR 0xBD], [CHR 0xA0]])) = [0xFFFD, 0xFFFD]
   \<and> model (newBotMessage (decodeStream JSON_parse (js ''r'') [[CHR 0xE4, CHR 0xBD], [CHR 0xA0]])) = JString []
   \<and> parseCalls (decodeStream JSON_parse (js ''r'') [[CHR 0xE4, CHR 0xBD], [CHR 0xA0]]) = []
   \<and> text (newBotMessage (decodeStream JSON_parse (js ''r'') [[CHR 0xE4, CHR 0xBD, CHR 0xA0]])) = [0x4F60]"
  by code_simp

text \<open>
  What holds of the text when the stream does not begin with a JSON object: for every way of
  cutting the stream into reads, the final text is the texts of the reads, each decoded on its
  own, one after the other; the model keeps the empty string it was created with, and every
  call of \<open>JSON.parse\<close> has thrown. It is the text of the stream when no read ends inside a
  character.
\<close>

lemma no_preamble_reads_text:
  assumes "\<not> beginsWithObject parse (readsText chunks)"
  shows "text (newBotMessage (decodeStream parse random chunks)) = readsText chunks
       \<and> model (newBotMessage (decodeStream parse random chunks)) = JString []
       \<and> (\<forall>j \<in> set (parseCalls (decodeStream parse random chunks)). parse j = None)"
proof (cases "framed (readsText chunks)")
  case False
  then show ?thesis
    by (simp add: decodeStream_unframed)
next
  case True
  let ?s = "readsText chunks"
  from True have c: "0x7D \<in> set ?s" and o: "startsWith ?s (js ''{'')"
    by (simp_all add: framed_def)
  from jsonPrefix_is_take [OF c] have "\<exists>n \<in> set [0 ..< Suc (length ?s)]. jsonPrefix ?s = take n ?s"
    by (metis atLeast_upt lessThan_iff less_Suc_eq_le)
  with assms o have none: "parse (jsonPrefix ?s) = None"
    by (auto simp: beginsWithObject_def)
  then have "tryParse parse (jsonPrefix ?s) = None"
    by (simp add: tryParse_def)
  from decodeStream_fails [OF True this, of random] none show ?thesis
    by auto
qed

section \<open>Properties of the message renderer\<close>

lemma takeWhile_ticks:
  assumes "\<not> isBacktick c"
  shows "takeWhile isBacktick (replicate n 0x60 @ c # r) = replicate n 0x60"
    and "dropWhile isBacktick (replicate n 0x60 @ c # r) = c # r"
  using assms by (induction n) (simp_all add: isBacktick_def)

lemma matchHere_no_tag:
  assumes "lazyBody r = (body, closing)"
  shows "matchHere (replicate (n + 3) 0x60 @ 0x0A # r)
           = Some (None, body, n + 3 + 1 + length body + length closing)"
proof -
  have nl: "\<not> isBacktick 0x0A" "\<not> isWord 0x0A"
    by (simp_all add: isBacktick_def isWord_def)
  note tk = takeWhile_ticks [OF nl(1), of "n + 3" r]
  from nl(2) have w: "takeWhile isWord (0x0A # r) = []" "dropWhile isWord (0x0A # r) = 0x0A # r"
    by simp_all
  show ?thesis
    unfolding matchHere_def Let_def tk w using assms
    by (simp add: startsWith_def)
qed

lemma matchHere_no_tick: "\<not> isBacktick c \<Longrightarrow> matchHere (c # r) = None"
  by (simp add: matchHere_def)

lemma exec_skip:
  assumes "\<forall>c \<in> set pre. \<not> isBacktick c" and "matchHere (x # r) = Some (g1, g2, n)"
  shows "exec (pre @ x # r) = Some (pre, g1, g2, n)"
  using assms by (induction pre) (simp_all add: matchHere_no_tick)

lemma drop_past: "drop (k + length xs) (xs @ r) = drop k r"
  by simp

lemma fence_without_tag:
  assumes "\<forall>c \<in> set pre. \<not> isBacktick c"
  shows "parseAndHighlightCodeBlocks highlight (pre @ replicate (n + 3) 0x60 @ 0x0A # r)
     = TextBlock pre
       # CodeBlock (highlight (trim (fst (lazyBody r))) (js ''typescript'')) (trim (fst (lazyBody r))) (js ''typescript'')
       # parseAndHighlightCodeBlocks highlight (drop (length (fst (lazyBody r)) + length (snd (lazyBody r))) r)"
proof -
  obtain body closing where lb: "lazyBody r = (body, closing)"
    by (cases "lazyBody r")
  let ?fence = "replicate (n + 3) 0x60"
  let ?len = "n + 3 + 1 + length body + length closing"
  have "matchHere (0x60 # replicate (n + 2) 0x60 @ 0x0A # r) = Some (None, body, ?len)"
    using matchHere_no_tag [OF lb, of n] by (simp add: numeral_3_eq_3)
  from exec_skip [OF assms this]
  have e: "exec (pre @ ?fence @ 0x0A # r) = Some (pre, None, body, ?len)"
    by (simp add: numeral_3_eq_3)
  have "length pre + ?len = (length body + length closing) + length (pre @ ?fence @ [0x0A])"
    by simp
  moreover have "drop ((length body + length closing) + length (pre @ ?fence @ [0x0A])) ((pre @ ?fence @ [0x0A]) @ r)
      = drop (length body + length closing) r"
    by (rule drop_past)
  ultimately have d: "drop (length pre + ?len) (pre @ ?fence @ 0x0A # r) = drop (length body + length closing) r"
    by simp
  have "parseAndHighlightCodeBlocks highlight (pre @ ?fence @ 0x0A # r)
      = TextBlock pre # CodeBlock (highlight (trim body) (js ''typescript'')) (trim body) (js ''typescript'')
        # parseAndHighlightCodeBlocks highlight (drop (length pre + ?len) (pre @ ?fence @ 0x0A # r))"
    by (subst parseAndHighlightCodeBlocks.simps) (simp only: e option.case prod.case Let_def)
  then show ?thesis
    by (simp only: d lb fst_conv snd_conv)
qed

text \<open>
  Claim C9. Whatever the highlighter, the text \<open>a\<newline>```js\<newline>console.log(1)\<newline>```\<newline>b\<close>
  gives three blocks: the text \<open>a\<newline>\<close>, the code \<open>console.log(1)\<close> in the language \<open>js\<close>,
  and the text \<open>\<newline>b\<close>. And when a text without backticks is followed by a fence of three or
  more backticks and at once by a newline, so that the fence has no language tag, the first
  code block has the language \<open>typescript\<close>.
\<close>

theorem code_fence_segments:
  "parseAndHighlightCodeBlocks highlight (js ''a\<newline>```js\<newline>console.log(1)\<newline>```\<newline>b'')
     = [TextBlock (js ''a\<newline>''),
        CodeBlock (highlight (js ''console.log(1)'') (js ''js'')) (js ''console.log(1)'') (js ''js''),
        TextBlock (js ''\<newline>b'')]
   \<and> (\<forall>pre n r. 0x60 \<notin> set pre \<longrightarrow>
        parseAndHighlightCodeBlocks highlight (pre @ replicate (n + 3) 0x60 @ 0x0A # r)
          = TextBlock pre
            # CodeBlock (highlight (trim (fst (lazyBody r))) (js ''typescript'')) (trim (fst (lazyBody r))) (js ''typescript'')
            # parseAndHighlightCodeBlocks highlight (drop (length (fst (lazyBody r)) + length (snd (lazyBody r))) r))"
proof (intro conjI allI impI)
  show "parseAndHighlightCodeBlocks highlight (js ''a\<newline>```js\<newline>console.log(1)\<newline>```\<newline>b'')
     = [TextBlock (js ''a\<newline>''),
        CodeBlock (highlight (js ''console.log(1)'') (js ''js'')) (js ''console.log(1)'') (js ''js''),
        TextBlock (js ''\<newline>b'')]"
    by code_simp
next
  fix pre :: jsstring and n r
  assume "0x60 \<notin> set pre"
  then have "\<forall>c \<in> set pre. \<not> isBacktick c"
    by (auto simp: isBacktick_def)
  then show "parseAndHighlightCodeBlocks highlight (pre @ replicate (n + 3) 0x60 @ 0x0A # r)
          = TextBlock pre
            # CodeBlock (highlight (trim (fst (lazyBody r))) (js ''typescript'')) (trim (fst (lazyBody r))) (js ''typescript'')
            # parseAndHighlightCodeBlocks highlight (drop (length (fst (lazyBody r)) + length (snd (lazyBody r))) r)"
    by (rule fence_without_tag)
qed

theorem code_fence_segments_witness:
  "0x60 \<notin> set (js ''see '')
   \<and> parseAndHighlightCodeBlocks (\<lambda>code language. code)
        ((js ''see '') @ replicate (1 + 3) 0x60 @ 0x0A # (js '' x = 1 \<newline>````\<newline>end''))
      = [TextBlock (js ''see ''), CodeBlock (js ''x = 1'') (js ''x = 1'') (js ''typescript''), TextBlock (js ''\<newline>end'')]"
proof -
  have h: "0x60 \<notin> set (js ''see '')"
    by code_simp
  have b: "lazyBody (js '' x = 1 \<newline>````\<newline>end'') = ((js '' x = 1 \<newline>''), (js ''````''))"
    by code_simp
  have t: "trim (js '' x = 1 \<newline>'') = (js ''x = 1'')"
    by code_simp
  have r: "parseAndHighlightCodeBlocks (\<lambda>code language. code) (js ''\<newline>end'') = [TextBlock (js ''\<newline>end'')]"
    by code_simp
  have dr: "drop (length (js '' x = 1 \<newline>'') + length (js ''````'')) (js '' x = 1 \<newline>````\<newline>end'') = (js ''\<newline>end'')"
    by code_simp
  from code_fence_segments [of "\<lambda>code language. code"]
  have "parseAndHighlightCodeBlocks (\<lambda>code language. code)
        ((js ''see '') @ replicate (1 + 3) 0x60 @ 0x0A # (js '' x = 1 \<newline>````\<newline>end''))
      = TextBlock (js ''see '')
        # CodeBlock ((\<lambda>code language. code) (trim (fst (lazyBody (js '' x = 1 \<newline>````\<newline>end'')))) (js ''typescript''))
            (trim (fst (lazyBody (js '' x = 1 \<newline>````\<newline>end'')))) (js ''typescript'')
        # parseAndHighlightCodeBlocks (\<lambda>code language. code)
            (drop (length (fst (lazyBody (js '' x = 1 \<newline>````\<newline>end''))) + length (snd (lazyBody (js '' x = 1 \<newline>````\<newline>end''))))
               (js '' x = 1 \<newline>````\<newline>end''))"
    using h by blast
  then have "parseAndHighlightCodeBlocks (\<lambda>code language. code)
        ((js ''see '') @ replicate (1 + 3) 0x60 @ 0x0A # (js '' x = 1 \<newline>````\<newline>end''))
      = [TextBlock (js ''see ''), CodeBlock (js ''x = 1'') (js ''x = 1'') (js ''typescript''), TextBlock (js ''\<newline>end'')]"
    by (simp only: b t dr r fst_conv snd_conv append.simps)
  with h show ?thesis
    by blast
qed

section \<open>Properties of the conversation page\<close>

lemma filter_update_length:
  "i < length xs \<Longrightarrow>
   length (filter P (xs[i := y])) + (if P (xs ! i) then 1 else 0)
     = length (filter P xs) + (if P y then 1 else 0)"
proof (induction xs arbitrary: i)
  case Nil
  then show ?case by simp
next
  case (Cons x xs)
  show ?case
  proof (cases i)
    case 0
    then show ?thesis by simp
  next
    case (Suc j)
    with Cons.prems have "j < length xs" by simp
    from Cons.IH [OF this] Suc show ?thesis by simp
  qed
qed

lemma handleSendClicked_empty:
  "trim (composeText s) = [] \<Longrightarrow> handleSendClicked random s = s"
  by (simp add: handleSendClicked_def)

lemma handleSendClicked_sends:
  assumes "trim (composeText s) \<noteq> []"
  shows "disableCompose (handleSendClicked random s)"
    and "requests (handleSendClicked random s) = requests s @ [Fetching]"
  using assms by (simp_all add: handleSendClicked_def handleComposerSendMessage_def Let_def)

lemma handleSendClicked_invariant:
  assumes "singleFlight s" and "\<not> disableCompose s"
  shows "singleFlight (handleSendClicked random s)"
proof (cases "trim (composeText s) = []")
  case True
  with assms show ?thesis by (simp add: handleSendClicked_empty)
next
  case False
  from assms have "inFlightCount s = 0"
    by (simp add: singleFlight_def)
  with handleSendClicked_sends [OF False, of random] show ?thesis
    by (simp add: singleFlight_def inFlightCount_def)
qed

lemma onResponse_invariant: "singleFlight s \<Longrightarrow> singleFlight (onResponse i body random s)"
proof -
  assume a: "singleFlight s"
  show ?thesis
  proof (cases "i < length (requests s) \<and> requests s ! i = Fetching")
    case False
    with a show ?thesis by (auto simp: onResponse_def)
  next
    case True
    then have i: "i < length (requests s)" and f: "requests s ! i = Fetching"
      by simp_all
    show ?thesis
    proof (cases body)
      case body: True
      from filter_update_length [OF i, of inFlight "Reading (length (store s)) []"] f True body
      have "inFlightCount (onResponse i body random s) = inFlightCount s"
        and "disableCompose (onResponse i body random s) = disableCompose s"
        by (simp_all add: inFlightCount_def onResponse_def)
      with a show ?thesis
        by (simp add: singleFlight_def)
    next
      case body: False
      from filter_update_length [OF i, of inFlight Resolved] f True body
      have "Suc (inFlightCount (onResponse i body random s)) = inFlightCount s"
        by (simp add: inFlightCount_def onResponse_def)
      with a show ?thesis
        by (simp add: singleFlight_def)
    qed
  qed
qed

lemma onRead_requests:
  "inFlightCount (onRead parse i c s) = inFlightCount s \<and> disableCompose (onRead parse i c s) = disableCompose s"
proof (cases "i < length (requests s)")
  case False
  then show ?thesis by (simp add: onRead_def)
next
  case True
  show ?thesis
  proof (cases "requests s ! i")
    case (Reading r calls)
    from filter_update_length [OF True, of inFlight "Reading r (parseCalls (readChunk parse \<lparr>newBotMessage = store s ! r, parseCalls = calls\<rparr> c))"] Reading
    show ?thesis
      using True by (simp add: onRead_def inFlightCount_def Let_def)
  qed (use True in \<open>simp_all add: onRead_def\<close>)
qed

lemma onDone_effect:
  assumes "i < length (requests s)" and "requests s ! i = Reading r calls"
  shows "onDone i s = s\<lparr>requests := (requests s)[i := Resolved], disableCompose := False\<rparr>"
    and "Suc (inFlightCount (onDone i s)) = inFlightCount s"
proof -
  from assms show e: "onDone i s = s\<lparr>requests := (requests s)[i := Resolved], disableCompose := False\<rparr>"
    by (simp add: onDone_def)
  from filter_update_length [OF assms(1), of inFlight Resolved] assms(2)
  show "Suc (inFlightCount (onDone i s)) = inFlightCount s"
    by (simp add: e inFlightCount_def)
qed

lemma onDone_other:
  "\<not> (i < length (requests s) \<and> (\<exists>r calls. requests s ! i = Reading r calls)) \<Longrightarrow> onDone i s = s"
  by (cases "requests s ! i") (auto simp: onDone_def)

lemma onDone_invariant: "singleFlight s \<Longrightarrow> singleFlight (onDone i s)"
proof (cases "i < length (requests s) \<and> (\<exists>r calls. requests s ! i = Reading r calls)")
  case False
  assume "singleFlight s"
  with onDone_other [OF False] show ?thesis by simp
next
  case True
  assume a: "singleFlight s"
  from True obtain r calls where i: "i < length (requests s)" and r: "requests s ! i = Reading r calls"
    by auto
  from onDone_effect(2) [OF i r] a show ?thesis
    by (simp add: singleFlight_def)
qed

lemma onFail_invariant: "singleFlight s \<Longrightarrow> singleFlight (onFail i s)"
proof (cases "i < length (requests s) \<and> inFlight (requests s ! i)")
  case False
  assume "singleFlight s"
  with False show ?thesis by (auto simp: onFail_def)
next
  case True
  assume a: "singleFlight s"
  from True have i: "i < length (requests s)" and f: "inFlight (requests s ! i)"
    by simp_all
  from filter_update_length [OF i, of inFlight Rejected] f True
  have "Suc (inFlightCount (onFail i s)) = inFlightCount s"
    by (simp add: inFlightCount_def onFail_def)
  with a show ?thesis
    by (simp add: singleFlight_def)
qed

lemma onFail_flag: "disableCompose (onFail i s) = disableCompose s"
  by (simp add: onFail_def)

lemma step_invariant: "singleFlight s \<Longrightarrow> singleFlight (step parse s e)"
proof (cases e)
  case (Change t)
  assume "singleFlight s"
  with Change show ?thesis by (simp add: singleFlight_def inFlightCount_def)
next
  case (Click random)
  assume "singleFlight s"
  with Click show ?thesis by (simp add: handleSendClicked_invariant)
next
  case (KeyDown key shiftKey random)
  assume "singleFlight s"
  with KeyDown show ?thesis by (simp add: handleKeyPress_def handleSendClicked_invariant)
next
  case ListClear
  assume "singleFlight s"
  with ListClear show ?thesis by (simp add: singleFlight_def inFlightCount_def)
next
  case ClearHistory
  assume "singleFlight s"
  with ClearHistory show ?thesis by (simp add: singleFlight_def inFlightCount_def)
next
  case (Response i body random)
  assume "singleFlight s"
  with Response show ?thesis by (simp add: onResponse_invariant)
next
  case (Read i c)
  assume "singleFlight s"
  with Read onRead_requests [of parse i c s] show ?thesis by (simp add: singleFlight_def)
next
  case (Done i)
  assume "singleFlight s"
  with Done show ?thesis by (simp add: onDone_invariant)
next
  case (Fail i)
  assume "singleFlight s"
  with Fail show ?thesis by (simp add: onFail_invariant)
qed

lemma run_invariant: "singleFlight s \<Longrightarrow> singleFlight (run parse s events)"
  unfolding run_def by (induction events arbitrary: s) (simp_all add: step_invariant)

lemma initial_invariant: "singleFlight (initial st)"
  by (simp add: singleFlight_def inFlightCount_def initial_def)

lemma disabled_ignores_send:
  "disableCompose s \<Longrightarrow> step parse s (Click random) = s \<and> step parse s (KeyDown key shiftKey random) = s"
  by (simp add: handleKeyPress_def)

lemma flag_cleared_by:
  assumes "disableCompose s" and "\<not> disableCompose (step parse s e)"
  shows "\<exists>i. i < length (requests s) \<and> inFlight (requests s ! i)
           \<and> (e = Done i \<or> (\<exists>random. e = Response i False random))
           \<and> requests (step parse s e) ! i = Resolved"
proof (cases e)
  case (Response i body random)
  with assms have c: "i < length (requests s) \<and> requests s ! i = Fetching" and b: "\<not> body"
    by (auto simp: onResponse_def split: if_splits)
  with Response have "requests (step parse s e) ! i = Resolved"
    by (simp add: onResponse_def)
  with c b Response show ?thesis
    by auto
next
  case (Read i c)
  with assms onRead_requests [of parse i c s] show ?thesis
    by simp
next
  case (Done i)
  have "i < length (requests s) \<and> (\<exists>r calls. requests s ! i = Reading r calls)"
  proof (rule ccontr)
    assume "\<not> (i < length (requests s) \<and> (\<exists>r calls. requests s ! i = Reading r calls))"
    then have "onDone i s = s"
      by (rule onDone_other)
    with assms Done show False
      by simp
  qed
  then obtain r calls where i: "i < length (requests s)" and r: "requests s ! i = Reading r calls"
    by auto
  from onDone_effect(1) [OF i r] i have "requests (onDone i s) ! i = Resolved"
    by simp
  with i r Done show ?thesis
    by auto
next
  case (Fail i)
  with assms show ?thesis
    by (simp add: onFail_flag)
qed (use assms in \<open>auto simp: handleKeyPress_def split: if_splits\<close>)

text \<open>
  Claim C6. In every state the page reaches from its initial state: at most one request is in
  flight; while composing is disabled, a click on the send button and a key press change
  nothing; when composing is enabled and the compose box holds more than white space, a click
  or the Enter key disables composing and puts exactly one request in flight; and composing is
  enabled again by nothing but the completion of the request in flight (its stream is done, or
  its response has no body), after which no request is in flight. A request that fails leaves
  composing disabled.
\<close>

theorem one_request_in_flight:
  fixes parse st events
  defines "s \<equiv> run parse (initial st) events"
  shows "inFlightCount s \<le> 1
    \<and> (disableCompose s \<longrightarrow>
         (\<forall>random key shiftKey.
            step parse s (Click random) = s \<and> step parse s (KeyDown key shiftKey random) = s))
    \<and> (\<not> disableCompose s \<and> trim (composeText s) \<noteq> [] \<longrightarrow>
         (\<forall>random.
            disableCompose (step parse s (Click random))
            \<and> inFlightCount (step parse s (Click random)) = 1
            \<and> disableCompose (step parse s (KeyDown (js ''Enter'') False random))
            \<and> inFlightCount (step parse s (KeyDown (js ''Enter'') False random)) = 1))
    \<and> (\<forall>e. disableCompose s \<and> \<not> disableCompose (step parse s e) \<longrightarrow>
         (\<exists>i. i < length (requests s) \<and> inFlight (requests s ! i)
              \<and> (e = Done i \<or> (\<exists>random. e = Response i False random))
              \<and> requests (step parse s e) ! i = Resolved
              \<and> inFlightCount (step parse s e) = 0))"
proof -
  have inv: "singleFlight s"
    unfolding s_def by (rule run_invariant [OF initial_invariant])
  then have one: "inFlightCount s \<le> 1"
    by (simp add: singleFlight_def)
  have ignored: "step parse s (Click random) = s \<and> step parse s (KeyDown key shiftKey random) = s"
    if "disableCompose s" for random key shiftKey
    using that by (rule disabled_ignores_send)
  have sends: "disableCompose (step parse s (Click random))
            \<and> inFlightCount (step parse s (Click random)) = 1
            \<and> disableCompose (step parse s (KeyDown (js ''Enter'') False random))
            \<and> inFlightCount (step parse s (KeyDown (js ''Enter'') False random)) = 1"
    if idle: "\<not> disableCompose s" and t: "trim (composeText s) \<noteq> []" for random
  proof -
    from inv idle have "inFlightCount s = 0"
      by (simp add: singleFlight_def)
    with handleSendClicked_sends [OF t, of random] idle show ?thesis
      by (simp add: handleKeyPress_def inFlightCount_def)
  qed
  have cleared: "\<exists>i. i < length (requests s) \<and> inFlight (requests s ! i)
              \<and> (e = Done i \<or> (\<exists>random. e = Response i False random))
              \<and> requests (step parse s e) ! i = Resolved
              \<and> inFlightCount (step parse s e) = 0"
    if d: "disableCompose s" and c: "\<not> disableCompose (step parse s e)" for e
  proof -
    from step_invariant [OF inv, of parse e] c have "inFlightCount (step parse s e) = 0"
      by (simp add: singleFlight_def)
    with flag_cleared_by [OF d c] show ?thesis
      by blast
  qed
  from one ignored sends cleared show ?thesis
    by blast
qed

theorem one_request_in_flight_witness:
  "disableCompose (run JSON_parse (initial (LocalStorage None))
      [Change (js ''hi''), Click (js ''u1''), Response 0 True (js ''u2''), Read 0 ''Hello''])
   \<and> step JSON_parse (run JSON_parse (initial (LocalStorage None))
        [Change (js ''hi''), Click (js ''u1''), Response 0 True (js ''u2''), Read 0 ''Hello'']) (Click (js ''u3''))
      = run JSON_parse (initial (LocalStorage None))
        [Change (js ''hi''), Click (js ''u1''), Response 0 True (js ''u2''), Read 0 ''Hello'']
   \<and> \<not> disableCompose (step JSON_parse (run JSON_parse (initial (LocalStorage None))
        [Change (js ''hi''), Click (js ''u1''), Response 0 True (js ''u2''), Read 0 ''Hello'']) (Done 0))
   \<and> inFlightCount (step JSON_parse (run JSON_parse (initial (LocalStorage None))
        [Change (js ''hi''), Click (js ''u1''), Response 0 True (js ''u2''), Read 0 ''Hello'']) (Done 0)) = 0
   \<and> \<not> disableCompose (run JSON_parse (initial (LocalStorage None)) [Change (js ''hi'')])
   \<and> trim (composeText (run JSON_parse (initial (LocalStorage None)) [Change (js ''hi'')])) \<noteq> []
   \<and> disableCompose (step JSON_parse (run JSON_parse (initial (LocalStorage None)) [Change (js ''hi'')])
        (KeyDown (js ''Enter'') False (js ''u1'')))"
proof -
  let ?busy = "run JSON_parse (initial (LocalStorage None))
      [Change (js ''hi''), Click (js ''u1''), Response 0 True (js ''u2''), Read 0 ''Hello'']"
  let ?idle = "run JSON_parse (initial (LocalStorage None)) [Change (js ''hi'')]"
  have h1: "disableCompose ?busy"
    by code_simp
  have h2: "\<not> disableCompose (step JSON_parse ?busy (Done 0))"
    by code_simp
  have h3: "\<not> disableCompose ?idle"
    by code_simp
  have h4: "trim (composeText ?idle) \<noteq> []"
    by code_simp
  note busy = one_request_in_flight [of JSON_parse "LocalStorage None"
      "[Change (js ''hi''), Click (js ''u1''), Response 0 True (js ''u2''), Read 0 ''Hello'']"]
  note idle = one_request_in_flight [of JSON_parse "LocalStorage None" "[Change (js ''hi'')]"]
  from busy h1 have c1: "step JSON_parse ?busy (Click (js ''u3'')) = ?busy"
    by blast
  from busy h1 h2 have c2: "inFlightCount (step JSON_parse ?busy (Done 0)) = 0"
    by blast
  from idle h3 h4 have c3: "disableCompose (step JSON_parse ?idle (KeyDown (js ''Enter'') False (js ''u1'')))"
    by blast
  from h1 c1 h2 c2 h3 h4 c3 show ?thesis
    by blast
qed

text \<open>
  Claim C10. When the compose box holds nothing but white space, a click on the send button and
  any key press, Enter included, leave the page as it is: no message joins the conversation,
  no request starts, the history and the compose box are unchanged.
\<close>

theorem empty_send_is_noop:
  assumes "trim (composeText s) = []"
  shows "step parse s (Click random) = s \<and> step parse s (KeyDown key shiftKey random) = s"
  using assms by (simp add: handleKeyPress_def handleSendClicked_empty)

theorem empty_send_is_noop_witness:
  "trim (composeText ((initial (LocalStorage (Some [(js ''old'')])))\<lparr>composeText := (js '' \<newline>  '')\<rparr>)) = []
   \<and> step JSON_parse ((initial (LocalStorage (Some [(js ''old'')])))\<lparr>composeText := (js '' \<newline>  '')\<rparr>) (Click (js ''u1''))
      = (initial (LocalStorage (Some [(js ''old'')])))\<lparr>composeText := (js '' \<newline>  '')\<rparr>
   \<and> step JSON_parse ((initial (LocalStorage (Some [(js ''old'')])))\<lparr>composeText := (js '' \<newline>  '')\<rparr>)
        (KeyDown (js ''Enter'') False (js ''u1''))
      = (initial (LocalStorage (Some [(js ''old'')])))\<lparr>composeText := (js '' \<newline>  '')\<rparr>"
proof -
  have h: "trim (composeText ((initial (LocalStorage (Some [(js ''old'')])))\<lparr>composeText := (js '' \<newline>  '')\<rparr>)) = []"
    by code_simp
  from empty_send_is_noop [OF h, of JSON_parse] h show ?thesis
    by blast
qed

lemma processChunk_uid: "uid (newBotMessage (processChunk parse d c)) = uid (newBotMessage d)"
  by (simp add: processChunk_cases split: option.splits)

lemma readChunk_uid: "uid (newBotMessage (readChunk parse d c)) = uid (newBotMessage d)"
  by (simp add: readChunk_def processChunk_uid)

lemma updater_cases:
  "setMessagesUpdater objects r list =
     (if \<exists>m \<in> set list. uid (objects ! m) = uid (objects ! r) then list else list @ [r])"
proof (cases "\<exists>m \<in> set list. uid (objects ! m) = uid (objects ! r)")
  case True
  then have "find (\<lambda>m. uid (objects ! m) = uid (objects ! r)) list \<noteq> None"
    unfolding find_None_iff by blast
  then obtain m where f: "find (\<lambda>m. uid (objects ! m) = uid (objects ! r)) list = Some m"
    by blast
  show ?thesis
    unfolding setMessagesUpdater_def f by (simp only: True option.case if_True)
next
  case False
  then have f: "find (\<lambda>m. uid (objects ! m) = uid (objects ! r)) list = None"
    unfolding find_None_iff by blast
  show ?thesis
    unfolding setMessagesUpdater_def f by (simp only: False option.case if_False)
qed

lemma updater_same_uids:
  assumes "r < length objects" and "uid nb = uid (objects ! r)"
  shows "setMessagesUpdater (objects[r := nb]) r list = setMessagesUpdater objects r list"
proof -
  have "uid (objects[r := nb] ! m) = uid (objects ! m)" for m
    using assms by (cases "m = r") simp_all
  then show ?thesis
    by (simp add: setMessagesUpdater_def)
qed

lemma onRead_reading:
  assumes "i < length (requests s)" and "requests s ! i = Reading r calls" and "r < length (store s)"
  shows "onRead parse i c s =
     s\<lparr>store := (store s)[r := newBotMessage (readChunk parse \<lparr>newBotMessage = store s ! r, parseCalls = calls\<rparr> c)],
       messages := setMessagesUpdater (store s) r (messages s),
       requests := (requests s)[i := Reading r (parseCalls (readChunk parse \<lparr>newBotMessage = store s ! r, parseCalls = calls\<rparr> c))]\<rparr>"
proof -
  let ?d = "readChunk parse \<lparr>newBotMessage = store s ! r, parseCalls = calls\<rparr> c"
  have "uid (newBotMessage ?d) = uid (store s ! r)"
    by (simp add: readChunk_uid)
  from updater_same_uids [OF assms(3) this]
  show ?thesis
    using assms(1,2) by (simp add: onRead_def Let_def)
qed

lemma onRead_other:
  "\<not> (i < length (requests s) \<and> (\<exists>r calls. requests s ! i = Reading r calls)) \<Longrightarrow> onRead parse i c s = s"
  by (cases "requests s ! i") (auto simp: onRead_def)


lemma run_append: "run parse s (a @ b) = run parse (run parse s a) b"
  by (simp add: run_def)

lemma sound_more_ids: "sound ids s \<Longrightarrow> sound (ids @ added) s"
  by (auto simp: sound_def)


lemma valid_mono:
  assumes "\<forall>p \<in> set ps. pointsInto n p" and "n \<le> m"
  shows "\<forall>p \<in> set ps. pointsInto m p"
proof
  fix p
  assume "p \<in> set ps"
  with assms(1) have "pointsInto n p"
    by blast
  with assms(2) show "pointsInto m p"
    by (cases p) simp_all
qed

lemma valid_update:
  assumes "\<forall>p \<in> set ps. pointsInto n p" and "pointsInto n q"
  shows "\<forall>p \<in> set (ps[i := q]). pointsInto n p"
proof
  fix p
  assume "p \<in> set (ps[i := q])"
  with set_update_subset_insert [of ps i q] have "p = q \<or> p \<in> set ps"
    by blast
  with assms show "pointsInto n p"
    by blast
qed

lemma soundI:
  assumes "distinct (messages s)" and "\<forall>r \<in> set (messages s). r < length (store s)"
    and "distinct (map uid (store s))" and "set (map uid (store s)) \<subseteq> set ids"
    and "\<forall>p \<in> set (requests s). pointsInto (length (store s)) p"
  shows "sound ids s"
  unfolding sound_def using assms by blast

lemma soundD:
  assumes "sound ids s"
  shows "distinct (messages s)" and "\<forall>r \<in> set (messages s). r < length (store s)"
    and "distinct (map uid (store s))" and "set (map uid (store s)) \<subseteq> set ids"
    and "\<forall>p \<in> set (requests s). pointsInto (length (store s)) p"
  using assms unfolding sound_def by blast+

lemma handleSendClicked_fields:
  assumes "trim (composeText s) \<noteq> []"
  shows "store (handleSendClicked random s) = store s @ [createUiMessage random User (trim (composeText s))]"
    and "messages (handleSendClicked random s) = messages s @ [length (store s)]"
  using assms by (simp_all add: handleSendClicked_def handleComposerSendMessage_def Let_def)

lemma handleSendClicked_sound:
  assumes "sound ids s" and "random \<notin> set ids"
  shows "sound (ids @ [random]) (handleSendClicked random s)"
proof (cases "trim (composeText s) = []")
  case True
  with assms(1) show ?thesis
    by (simp add: handleSendClicked_empty sound_more_ids)
next
  case False
  note f = handleSendClicked_fields [OF False, of random] handleSendClicked_sends(2) [OF False, of random]
  from assms have fresh: "random \<notin> set (map uid (store s))"
    by (auto simp: sound_def)
  from assms(1) have new: "length (store s) \<notin> set (messages s)"
    by (auto simp: sound_def)
  note d = soundD [OF assms(1)]
  show ?thesis
  proof (rule soundI)
    from d(1) new show "distinct (messages (handleSendClicked random s))"
      unfolding f by simp
    from d(2) show "\<forall>r \<in> set (messages (handleSendClicked random s)). r < length (store (handleSendClicked random s))"
      unfolding f by (auto simp: less_Suc_eq)
    from d(3) fresh show "distinct (map uid (store (handleSendClicked random s)))"
      unfolding f by simp
    from d(4) show "set (map uid (store (handleSendClicked random s))) \<subseteq> set (ids @ [random])"
      unfolding f by auto
    have "length (store s) \<le> length (store (handleSendClicked random s))"
      unfolding f by simp
    from valid_mono [OF d(5) this]
    show "\<forall>p \<in> set (requests (handleSendClicked random s)). pointsInto (length (store (handleSendClicked random s))) p"
      unfolding f(3) by simp
  qed
qed

lemma onResponse_sound:
  assumes "sound ids s" and "random \<notin> set ids"
  shows "sound (ids @ [random]) (onResponse i body random s)"
proof (cases "i < length (requests s) \<and> requests s ! i = Fetching \<and> body")
  case False
  have "sound ids (onResponse i body random s)"
  proof (cases "i < length (requests s) \<and> requests s ! i = Fetching")
    case False
    with assms(1) show ?thesis
      by (auto simp: onResponse_def)
  next
    case True
    with False have e: "onResponse i body random s = s\<lparr>requests := (requests s)[i := Resolved], disableCompose := False\<rparr>"
      by (auto simp: onResponse_def)
    note d = soundD [OF assms(1)]
    from d valid_update [OF d(5), of Resolved i] show ?thesis
      unfolding e by (intro soundI) simp_all
  qed
  then show ?thesis
    by (rule sound_more_ids)
next
  case True
  then have e: "onResponse i body random s =
      s\<lparr>store := store s @ [createUiMessage random Assistant []],
        requests := (requests s)[i := Reading (length (store s)) []]\<rparr>"
    by (simp add: onResponse_def)
  from assms have fresh: "random \<notin> set (map uid (store s))"
    by (auto simp: sound_def)
  note d = soundD [OF assms(1)]
  show ?thesis
  proof (rule soundI)
    from d(1) show "distinct (messages (onResponse i body random s))"
      unfolding e by simp
    from d(2) show "\<forall>r \<in> set (messages (onResponse i body random s)). r < length (store (onResponse i body random s))"
      unfolding e by (auto simp: less_Suc_eq)
    from d(3) fresh show "distinct (map uid (store (onResponse i body random s)))"
      unfolding e by simp
    from d(4) show "set (map uid (store (onResponse i body random s))) \<subseteq> set (ids @ [random])"
      unfolding e by auto
    have rq: "requests (onResponse i body random s) = (requests s)[i := Reading (length (store s)) []]"
      unfolding e by simp
    have len: "length (store s) < length (store (onResponse i body random s))"
      unfolding e by simp
    then have "length (store s) \<le> length (store (onResponse i body random s))"
      by simp
    from valid_update [OF valid_mono [OF d(5) this], of "Reading (length (store s)) []" i] len
    show "\<forall>p \<in> set (requests (onResponse i body random s)). pointsInto (length (store (onResponse i body random s))) p"
      unfolding rq by simp
  qed
qed

lemma reading_valid:
  assumes "sound ids s" and "i < length (requests s)" and "requests s ! i = Reading r calls"
  shows "r < length (store s)"
proof -
  from assms(2,3) have "Reading r calls \<in> set (requests s)"
    by (metis nth_mem)
  with soundD(5) [OF assms(1)] have "pointsInto (length (store s)) (Reading r calls)"
    by blast
  then show ?thesis
    by simp
qed

lemma lookup_is_membership:
  assumes "sound ids s" and "r < length (store s)"
  shows "(\<exists>m \<in> set (messages s). uid (store s ! m) = uid (store s ! r)) \<longleftrightarrow> r \<in> set (messages s)"
proof
  assume "\<exists>m \<in> set (messages s). uid (store s ! m) = uid (store s ! r)"
  then obtain m where m: "m \<in> set (messages s)" and u: "uid (store s ! m) = uid (store s ! r)"
    by blast
  from assms(1) m have ml: "m < length (store s)"
    by (auto simp: sound_def)
  from assms(1) have "distinct (map uid (store s))"
    by (simp add: sound_def)
  with ml assms(2) u have "m = r"
    using nth_eq_iff_index_eq [of "map uid (store s)" m r] by simp
  with m show "r \<in> set (messages s)"
    by simp
next
  assume "r \<in> set (messages s)"
  then show "\<exists>m \<in> set (messages s). uid (store s ! m) = uid (store s ! r)"
    by blast
qed

lemma same_uids:
  assumes "r < length objects" and "uid nb = uid (objects ! r)"
  shows "map uid (objects[r := nb]) = map uid objects"
proof -
  have "map uid (objects[r := nb]) = (map uid objects)[r := uid nb]"
    by (rule map_update)
  also from assms have "\<dots> = (map uid objects)[r := map uid objects ! r]"
    by simp
  also have "\<dots> = map uid objects"
    by (rule list_update_id)
  finally show ?thesis .
qed

lemma onRead_sound:
  assumes "sound ids s"
  shows "sound ids (onRead parse i c s)"
proof (cases "i < length (requests s) \<and> (\<exists>r calls. requests s ! i = Reading r calls)")
  case False
  from onRead_other [OF this] assms show ?thesis
    by simp
next
  case True
  then obtain r calls where i: "i < length (requests s)" and rd: "requests s ! i = Reading r calls"
    by blast
  from reading_valid [OF assms i rd] have r: "r < length (store s)" .
  let ?d = "readChunk parse \<lparr>newBotMessage = store s ! r, parseCalls = calls\<rparr> c"
  note e = onRead_reading [OF i rd r, of parse c]
  have u: "map uid ((store s)[r := newBotMessage ?d]) = map uid (store s)"
    by (rule same_uids [OF r]) (simp add: readChunk_uid)
  have ms: "setMessagesUpdater (store s) r (messages s)
      = (if r \<in> set (messages s) then messages s else messages s @ [r])"
    unfolding updater_cases lookup_is_membership [OF assms r] ..
  note d = soundD [OF assms]
  have st: "store (onRead parse i c s) = (store s)[r := newBotMessage ?d]"
    and mg: "messages (onRead parse i c s) = (if r \<in> set (messages s) then messages s else messages s @ [r])"
    and rq: "requests (onRead parse i c s) = (requests s)[i := Reading r (parseCalls ?d)]"
    by (simp_all add: e ms)
  have len: "length (store (onRead parse i c s)) = length (store s)"
    unfolding st by simp
  show ?thesis
  proof (rule soundI)
    from d(1) show "distinct (messages (onRead parse i c s))"
      unfolding mg by simp
    from d(2) r show "\<forall>r \<in> set (messages (onRead parse i c s)). r < length (store (onRead parse i c s))"
      unfolding mg len by simp
    from d(3) show "distinct (map uid (store (onRead parse i c s)))"
      unfolding st u .
    from d(4) show "set (map uid (store (onRead parse i c s))) \<subseteq> set ids"
      unfolding st u .
    from valid_update [OF d(5), of "Reading r (parseCalls ?d)" i] r
    show "\<forall>p \<in> set (requests (onRead parse i c s)). pointsInto (length (store (onRead parse i c s))) p"
      unfolding rq len by simp
  qed
qed

lemma onDone_sound:
  assumes "sound ids s"
  shows "sound ids (onDone i s)"
proof (cases "i < length (requests s) \<and> (\<exists>r calls. requests s ! i = Reading r calls)")
  case False
  from onDone_other [OF this] assms show ?thesis
    by simp
next
  case True
  then obtain r calls where i: "i < length (requests s)" and rd: "requests s ! i = Reading r calls"
    by blast
  note d = soundD [OF assms]
  from d valid_update [OF d(5), of Resolved i] show ?thesis
    unfolding onDone_effect(1) [OF i rd] by (intro soundI) simp_all
qed

lemma onFail_sound:
  assumes "sound ids s"
  shows "sound ids (onFail i s)"
proof (cases "i < length (requests s) \<and> inFlight (requests s ! i)")
  case False
  with assms show ?thesis
    by (auto simp: onFail_def)
next
  case True
  then have e: "onFail i s = s\<lparr>requests := (requests s)[i := Rejected]\<rparr>"
    by (simp add: onFail_def)
  note d = soundD [OF assms]
  from d valid_update [OF d(5), of Rejected i] show ?thesis
    unfolding e by (intro soundI) simp_all
qed

lemma step_sound:
  assumes "sound ids s" and "distinct (ids @ drawn e)"
  shows "sound (ids @ drawn e) (step parse s e)"
proof (cases e)
  case (Change t)
  with assms(1) show ?thesis by (simp add: sound_def)
next
  case (Click random)
  with assms have "random \<notin> set ids" by simp
  from handleSendClicked_sound [OF assms(1) this] assms(1) Click show ?thesis
    by (simp add: sound_more_ids)
next
  case (KeyDown key shiftKey random)
  with assms have "random \<notin> set ids" by simp
  from handleSendClicked_sound [OF assms(1) this] assms(1) KeyDown show ?thesis
    by (simp add: handleKeyPress_def sound_more_ids)
next
  case ListClear
  with assms(1) show ?thesis by (simp add: sound_def)
next
  case ClearHistory
  with assms(1) show ?thesis by (simp add: sound_def)
next
  case (Response i body random)
  with assms have "random \<notin> set ids" by simp
  from onResponse_sound [OF assms(1) this] Response show ?thesis
    by simp
next
  case (Read i c)
  with onRead_sound [OF assms(1)] show ?thesis by simp
next
  case (Done i)
  with onDone_sound [OF assms(1)] show ?thesis by simp
next
  case (Fail i)
  with onFail_sound [OF assms(1)] show ?thesis by simp
qed

lemma run_sound:
  "sound ids s \<Longrightarrow> distinct (ids @ identifiers events) \<Longrightarrow>
   sound (ids @ identifiers events) (run parse s events)"
proof (induction events arbitrary: ids s)
  case Nil
  then show ?case by (simp add: run_def identifiers_def)
next
  case (Cons e events)
  from Cons.prems(2) have d1: "distinct (ids @ drawn e)"
    and d2: "distinct ((ids @ drawn e) @ identifiers events)"
    by (auto simp: identifiers_def)
  from Cons.IH [OF step_sound [OF Cons.prems(1) d1] d2, of parse] show ?case
    by (simp add: run_def identifiers_def)
qed

lemma initial_sound: "sound [] (initial st)"
  by (simp add: sound_def initial_def)

lemma reachable_sound:
  assumes "distinct (identifiers events)"
  shows "sound (identifiers events) (run parse (initial st) events)"
  using run_sound [OF initial_sound, of events parse st] assms by simp

lemma sound_conversation:
  assumes "sound ids s"
  shows "distinct (map uid (conversation s))"
proof -
  from assms have d: "distinct (messages s)" and v: "\<forall>r \<in> set (messages s). r < length (store s)"
    and u: "distinct (map uid (store s))"
    by (simp_all add: sound_def)
  have "inj_on (\<lambda>r. uid (store s ! r)) (set (messages s))"
  proof (rule inj_onI)
    fix a b
    assume "a \<in> set (messages s)" "b \<in> set (messages s)" "uid (store s ! a) = uid (store s ! b)"
    with v u show "a = b"
      using nth_eq_iff_index_eq [of "map uid (store s)" a b] by simp
  qed
  with d have "distinct (map (\<lambda>r. uid (store s ! r)) (messages s))"
    by (simp add: distinct_map)
  then show ?thesis
    by (simp add: conversation_def comp_def)
qed

lemma step_extends:
  assumes "e \<noteq> ListClear"
  shows "\<exists>added. messages (step parse s e) = messages s @ added"
proof (cases e)
  case (Click random)
  show ?thesis
  proof (cases "trim (composeText s) = []")
    case True
    with Click show ?thesis by (simp add: handleSendClicked_empty)
  next
    case False
    from handleSendClicked_fields(2) [OF False] Click show ?thesis by simp
  qed
next
  case (KeyDown key shiftKey random)
  show ?thesis
  proof (cases "trim (composeText s) = []")
    case True
    with KeyDown show ?thesis by (simp add: handleKeyPress_def handleSendClicked_empty)
  next
    case False
    from handleSendClicked_fields(2) [OF False] KeyDown show ?thesis
      by (simp add: handleKeyPress_def)
  qed
next
  case (Response i body random)
  then show ?thesis by (simp add: onResponse_def)
next
  case (Read i c)
  show ?thesis
  proof (cases "i < length (requests s)")
    case False
    with Read show ?thesis by (simp add: onRead_def)
  next
    case True
    with Read show ?thesis
      by (cases "requests s ! i") (simp_all add: onRead_def Let_def updater_cases)
  qed
next
  case (Done i)
  show ?thesis
  proof (cases "i < length (requests s)")
    case False
    with Done show ?thesis by (simp add: onDone_def)
  next
    case True
    with Done show ?thesis
      by (cases "requests s ! i") (simp_all add: onDone_def)
  qed
next
  case (Fail i)
  then show ?thesis by (simp add: onFail_def)
qed (use assms in simp_all)

lemma run_extends:
  "ListClear \<notin> set later \<Longrightarrow> \<exists>added. messages (run parse s later) = messages s @ added"
proof (induction later arbitrary: s)
  case Nil
  then show ?case by (simp add: run_def)
next
  case (Cons e later)
  then have "e \<noteq> ListClear" and "ListClear \<notin> set later"
    by auto
  from step_extends [OF this(1), of parse s] obtain m1 where m1: "messages (step parse s e) = messages s @ m1"
    by blast
  from Cons.IH [OF \<open>ListClear \<notin> set later\<close>, of "step parse s e"] obtain m2
    where "messages (run parse (step parse s e) later) = messages (step parse s e) @ m2"
    by blast
  with m1 show ?case
    by (simp add: run_def)
qed

lemma at_most_one:
  assumes "distinct xs" and "\<forall>x \<in> set xs. P x \<longrightarrow> x = a"
  shows "length (filter P xs) \<le> 1"
proof -
  from assms(1) have "distinct (filter P xs)"
    by simp
  then have "card (set (filter P xs)) = length (filter P xs)"
    by (rule distinct_card)
  then have "length (filter P xs) = card (set (filter P xs))"
    by (rule sym)
  also from assms(2) have "set (filter P xs) \<subseteq> {a}"
    by auto
  then have "card (set (filter P xs)) \<le> card {a}"
    by (intro card_mono) simp_all
  finally show ?thesis
    by simp
qed

text \<open>
  Claim C7, as the code has it. Take a state the page reaches from its initial state by events
  whose identifiers are pairwise different. No two entries of the conversation have the same
  identifier. When a request is reading its body into the message object \<open>newBot\<close>, that
  object is in the store, the conversation has at most one entry with its identifier, and such
  an entry is the object itself; a read creates no message object and keeps the request on the
  same object, whose identifier is unchanged; it leaves the conversation as it is when one of
  its entries has that identifier, and adds a reference to the object at its end otherwise.
  In every run that goes on from that state without a list clear, the conversation keeps its
  entries and gains entries at its end, and holds no reference twice: between two list clears
  the pending entry is appended at most once.
\<close>

theorem pending_message_looked_up:
  fixes parse st events
  defines "s \<equiv> run parse (initial st) events"
  assumes "distinct (identifiers events)"
  shows "distinct (map uid (conversation s))
    \<and> (\<forall>i newBot calls value.
         i < length (requests s) \<and> requests s ! i = Reading newBot calls \<longrightarrow>
           newBot < length (store s)
         \<and> length (filter (\<lambda>m. uid (store s ! m) = uid (store s ! newBot)) (messages s)) \<le> 1
         \<and> (\<forall>m \<in> set (messages s). uid (store s ! m) = uid (store s ! newBot) \<longrightarrow> m = newBot)
         \<and> (\<exists>calls'. requests (step parse s (Read i value)) ! i = Reading newBot calls')
         \<and> length (store (step parse s (Read i value))) = length (store s)
         \<and> uid (store (step parse s (Read i value)) ! newBot) = uid (store s ! newBot)
         \<and> messages (step parse s (Read i value))
             = (if \<exists>m \<in> set (messages s). uid (store s ! m) = uid (store s ! newBot)
                then messages s else messages s @ [newBot]))
    \<and> (\<forall>later. ListClear \<notin> set later \<and> distinct (identifiers (events @ later)) \<longrightarrow>
         (\<exists>added. messages (run parse s later) = messages s @ added
                  \<and> distinct (messages s @ added)
                  \<and> distinct (map uid (conversation (run parse s later)))))"
proof (intro conjI allI impI)
  have inv: "sound (identifiers events) s"
    unfolding s_def by (rule reachable_sound [OF assms(2)])
  from inv show "distinct (map uid (conversation s))"
    by (rule sound_conversation)
  {
    fix i newBot calls "value"
    assume a: "i < length (requests s) \<and> requests s ! i = Reading newBot calls"
    then have i: "i < length (requests s)" and rd: "requests s ! i = Reading newBot calls"
      by simp_all
    from reading_valid [OF inv i rd] show r: "newBot < length (store s)" .
    let ?d = "readChunk parse \<lparr>newBotMessage = store s ! newBot, parseCalls = calls\<rparr> value"
    let ?s1 = "onRead parse i value s"
    have s1: "?s1 = s\<lparr>store := (store s)[newBot := newBotMessage ?d],
         messages := setMessagesUpdater (store s) newBot (messages s),
         requests := (requests s)[i := Reading newBot (parseCalls ?d)]\<rparr>"
      by (rule onRead_reading [OF i rd r])
    have st: "step parse s (Read i value) = ?s1"
      by simp
    have same: "\<forall>m \<in> set (messages s). uid (store s ! m) = uid (store s ! newBot) \<longrightarrow> m = newBot"
    proof (intro ballI impI)
      fix m
      assume m: "m \<in> set (messages s)" and u: "uid (store s ! m) = uid (store s ! newBot)"
      from soundD(2) [OF inv] m have "m < length (store s)"
        by blast
      with soundD(3) [OF inv] r u show "m = newBot"
        using nth_eq_iff_index_eq [of "map uid (store s)" m newBot] by simp
    qed
    then show "\<forall>m \<in> set (messages s). uid (store s ! m) = uid (store s ! newBot) \<longrightarrow> m = newBot" .
    from at_most_one [OF soundD(1) [OF inv] same]
    show "length (filter (\<lambda>m. uid (store s ! m) = uid (store s ! newBot)) (messages s)) \<le> 1" .
    from i show "\<exists>calls'. requests (step parse s (Read i value)) ! i = Reading newBot calls'"
      unfolding st by (simp add: s1)
    show "length (store (step parse s (Read i value))) = length (store s)"
      unfolding st by (simp add: s1)
    from r show "uid (store (step parse s (Read i value)) ! newBot) = uid (store s ! newBot)"
      unfolding st by (simp add: s1 readChunk_uid)
    show "messages (step parse s (Read i value))
             = (if \<exists>m \<in> set (messages s). uid (store s ! m) = uid (store s ! newBot)
                then messages s else messages s @ [newBot])"
      unfolding st by (simp add: s1 updater_cases)
  }
  {
    fix later
    assume a: "ListClear \<notin> set later \<and> distinct (identifiers (events @ later))"
    have r: "run parse s later = run parse (initial st) (events @ later)"
      unfolding s_def by (simp add: run_append)
    from a have "sound (identifiers (events @ later)) (run parse s later)"
      unfolding r by (intro reachable_sound) simp
    then have "distinct (messages (run parse s later))"
      and "distinct (map uid (conversation (run parse s later)))"
      by (simp_all add: soundD(1) sound_conversation)
    moreover from a run_extends [of later parse s] obtain added
      where "messages (run parse s later) = messages s @ added"
      by blast
    ultimately show "\<exists>added. messages (run parse s later) = messages s @ added
                  \<and> distinct (messages s @ added)
                  \<and> distinct (map uid (conversation (run parse s later)))"
      by auto
  }
qed

theorem pending_message_looked_up_witness:
  "distinct (identifiers [Change (js ''hi''), Click (js ''u1''), Response 0 True (js ''u2'')])
   \<and> 0 < length (requests (run JSON_parse (initial (LocalStorage None))
       [Change (js ''hi''), Click (js ''u1''), Response 0 True (js ''u2'')]))
   \<and> requests (run JSON_parse (initial (LocalStorage None))
       [Change (js ''hi''), Click (js ''u1''), Response 0 True (js ''u2'')]) ! 0 = Reading 1 []
   \<and> messages (run JSON_parse (initial (LocalStorage None))
       [Change (js ''hi''), Click (js ''u1''), Response 0 True (js ''u2'')]) = [0]
   \<and> messages (step JSON_parse (run JSON_parse (initial (LocalStorage None))
       [Change (js ''hi''), Click (js ''u1''), Response 0 True (js ''u2'')]) (Read 0 ''He'')) = [0, 1]
   \<and> distinct (map uid (conversation (run JSON_parse (initial (LocalStorage None))
       [Change (js ''hi''), Click (js ''u1''), Response 0 True (js ''u2'')])))
   \<and> ListClear \<notin> set [Read 0 ''He'', Read 0 ''l'', Read 0 ''lo'', Done 0]
   \<and> distinct (identifiers ([Change (js ''hi''), Click (js ''u1''), Response 0 True (js ''u2'')]
        @ [Read 0 ''He'', Read 0 ''l'', Read 0 ''lo'', Done 0]))
   \<and> messages (run JSON_parse (run JSON_parse (initial (LocalStorage None))
       [Change (js ''hi''), Click (js ''u1''), Response 0 True (js ''u2'')])
       [Read 0 ''He'', Read 0 ''l'', Read 0 ''lo'', Done 0]) = [0, 1]
   \<and> distinct (map uid (conversation (run JSON_parse (run JSON_parse (initial (LocalStorage None))
       [Change (js ''hi''), Click (js ''u1''), Response 0 True (js ''u2'')])
       [Read 0 ''He'', Read 0 ''l'', Read 0 ''lo'', Done 0])))"
proof -
  let ?events = "[Change (js ''hi''), Click (js ''u1''), Response 0 True (js ''u2'')]"
  let ?later = "[Read 0 ''He'', Read 0 ''l'', Read 0 ''lo'', Done 0]"
  let ?s = "run JSON_parse (initial (LocalStorage None)) ?events"
  have h0: "distinct (identifiers ?events)"
    by code_simp
  have h1: "0 < length (requests ?s)"
    by code_simp
  have h2: "requests ?s ! 0 = Reading 1 []"
    by code_simp
  have h3: "\<not> (\<exists>m \<in> set (messages ?s). uid (store ?s ! m) = uid (store ?s ! 1))"
    by code_simp
  have h4: "messages ?s = [0]"
    by code_simp
  have h5: "ListClear \<notin> set ?later"
    by simp
  have h6: "distinct (identifiers (?events @ ?later))"
    by code_simp
  have h7: "messages (run JSON_parse ?s ?later) = [0, 1]"
    by code_simp
  note t = pending_message_looked_up [OF h0, of JSON_parse "LocalStorage None"]
  from t have c1: "distinct (map uid (conversation ?s))"
    by blast
  from t h1 h2 have "messages (step JSON_parse ?s (Read 0 ''He''))
      = (if \<exists>m \<in> set (messages ?s). uid (store ?s ! m) = uid (store ?s ! 1)
         then messages ?s else messages ?s @ [1])"
    by blast
  with h3 h4 have c2: "messages (step JSON_parse ?s (Read 0 ''He'')) = [0, 1]"
    by simp
  from t h5 h6 have c3: "distinct (map uid (conversation (run JSON_parse ?s ?later)))"
    by blast
  from h0 h1 h2 h4 c2 c1 h5 h6 h7 c3 show ?thesis
    by blast
qed

theorem pending_message_counterexample:
  "messages (run JSON_parse (initial (LocalStorage None))
       [Change (js ''hi''), Click (js ''u1''), Response 0 True (js ''u2''), Read 0 ''a'']) = [0, 1]
   \<and> messages (run JSON_parse (initial (LocalStorage None))
       [Change (js ''hi''), Click (js ''u1''), Response 0 True (js ''u2''), Read 0 ''a'', ListClear]) = []
   \<and> messages (run JSON_parse (initial (LocalStorage None))
       [Change (js ''hi''), Click (js ''u1''), Response 0 True (js ''u2''), Read 0 ''a'', ListClear,
        Read 0 ''b'']) = [1]
   \<and> requests (run JSON_parse (initial (LocalStorage None))
       [Change (js ''hi''), Click (js ''a''), Response 0 True (js ''b''), Read 0 ''x'', Done 0,
        Change (js ''yo''), Click (js ''a''), Response 1 True (js ''a''), Read 1 ''y'']) ! 1
       = Reading 3 []
   \<and> uid (store (run JSON_parse (initial (LocalStorage None))
       [Change (js ''hi''), Click (js ''a''), Response 0 True (js ''b''), Read 0 ''x'', Done 0,
        Change (js ''yo''), Click (js ''a''), Response 1 True (js ''a''), Read 1 ''y'']) ! 3) = js ''a''
   \<and> messages (run JSON_parse (initial (LocalStorage None))
       [Change (js ''hi''), Click (js ''a''), Response 0 True (js ''b''), Read 0 ''x'', Done 0,
        Change (js ''yo''), Click (js ''a''), Response 1 True (js ''a''), Read 1 ''y'']) = [0, 1, 2]
   \<and> map uid (conversation (run JSON_parse (initial (LocalStorage None))
       [Change (js ''hi''), Click (js ''a''), Response 0 True (js ''b''), Read 0 ''x'', Done 0,
        Change (js ''yo''), Click (js ''a''), Response 1 True (js ''a''), Read 1 ''y'']))
       = [js ''a'', js ''b'', js ''a'']"
  by code_simp







end
